theory Spec2Isabelle
  imports Main "HOL-Library.Word"
begin

section \<open>The stream decoder of src/src/StreamDecoder.ts\<close>

subsection \<open>Values, errors and frames\<close>

type_synonym byte = "8 word"

text \<open>
  The errors the decoder throws. \<open>DecodeError\<close> is the class of ./DecodeError;
  \<open>MORE_DATA\<close> is an instance of \<open>DataViewIndexOutOfBoundsError\<close>, which is the
  constructor of the error thrown by an out-of-bounds DataView read: \<open>RangeError\<close> on
  every standard engine. Numbers interpolated into a message are left out of it.
\<close>

datatype error = DecodeError string | RangeError string | TypeError string

definition MORE_DATA :: error where
  "MORE_DATA = RangeError ''Insufficient data''"

fun isDecodeError :: "error \<Rightarrow> bool" where
  "isDecodeError (DecodeError m) = True"
| "isDecodeError (RangeError m) = False"
| "isDecodeError (TypeError m) = False"

text \<open>
  A JavaScript number read from the wire: an integer, or the bits of a 32- or 64-bit
  float (floating point is not interpreted). All three have \<open>typeof\<close> "number".
\<close>

datatype number = Integer int | Float32 "32 word" | Float64 "64 word"

text \<open>
  A decoded value. The parameter \<open>'b\<close> is what a \<open>Uint8Array\<close> holds: for the stream
  decoder a view (buffer identity and byte length, the offset is always 0) into one of
  the decoder's ArrayBuffers. A \<open>Record\<close> is an association list; its keys are the
  values the decoder stored them under (JavaScript turns a number key into its decimal
  string; the model keeps the number). \<open>JOther\<close> is any other host object an extension
  handler returns (a \<open>Date\<close>, say).
\<close>

datatype 'b jsval =
    JNull
  | JUndefined
  | JBoolean bool
  | JNumber number
  | JString string
  | JUint8Array 'b
  | JArray "'b jsval list"
  | JObject "('b jsval \<times> 'b jsval) list"
  | JOther nat

type_synonym view = "nat \<times> nat"

fun typeof :: "'b jsval \<Rightarrow> string" where
  "typeof JNull = ''object''"
| "typeof JUndefined = ''undefined''"
| "typeof (JBoolean b) = ''boolean''"
| "typeof (JNumber n) = ''number''"
| "typeof (JString s) = ''string''"
| "typeof (JUint8Array b) = ''object''"
| "typeof (JArray xs) = ''object''"
| "typeof (JObject kvs) = ''object''"
| "typeof (JOther h) = ''object''"

definition isValidMapKeyType :: "'b jsval \<Rightarrow> bool" where
  "isValidMapKeyType key =
     (let keyType = typeof key in keyType = ''string'' \<or> keyType = ''number'')"

datatype map_state_type = STATE_MAP_KEY | STATE_MAP_VALUE

text \<open>
  A stack entry. \<open>StackArrayState size array position\<close> and
  \<open>StackMapState type size key readCount map\<close>; the key is \<open>None\<close> for \<open>null\<close>. The
  parameter is that of the values.
\<close>

datatype 'b frame =
    StackArrayState nat "'b jsval list" nat
  | StackMapState map_state_type nat "'b jsval option" nat "('b jsval \<times> 'b jsval) list"

subsection \<open>The pull source and the decoder's state\<close>

text \<open>
  The \<open>read\<close> argument of the constructor. A callback is given the view
  \<open>this.bytes.subarray(pos, length)\<close>, of which the model passes the length; it answers
  with the bytes it wrote at the start of the view, the number it returns, and its own
  next state (the variables its closure captured). An \<open>AsyncIterable\<close> is what
  \<open>decodeStream\<close> declares for \<open>read\<close>; it is an object, not a function.
\<close>

datatype 'src reader =
    Callback "'src \<Rightarrow> nat \<Rightarrow> byte list \<times> int \<times> 'src"
  | AsyncIterable "byte list list"

text \<open>
  The constructor's parameters, with the imported helpers that are not part of the
  class: the two UTF-8 decoders and their threshold (./utils/utf8). The extension
  codec's \<open>decode\<close> is given the payload view, the bytes it holds at that moment and
  the type code. A key decoder is \<open>canBeCached\<close> and \<open>decode\<close>.
\<close>

record 'src params =
  read :: "'src reader"
  extensionCodec :: "view \<Rightarrow> byte list \<Rightarrow> int \<Rightarrow> error + view jsval"
  maxStrLength :: nat
  maxBinLength :: nat
  maxArrayLength :: nat
  maxMapLength :: nat
  maxExtLength :: nat
  keyDecoder :: "((nat \<Rightarrow> bool) \<times> (byte list \<Rightarrow> string)) option"
  utf8DecodeJs :: "byte list \<Rightarrow> string"
  utf8DecodeTD :: "byte list \<Rightarrow> string"
  TEXT_DECODER_THRESHOLD :: nat

text \<open>
  The instance's fields. \<open>bytes\<close> is the ArrayBuffer that \<open>this.view\<close> and
  \<open>this.bytes\<close> share; \<open>retired\<close> are the ArrayBuffers \<open>resizeBuffer\<close> has replaced, in
  the order of their creation, so that buffer \<open>i\<close> is \<open>(retired @ [bytes]) ! i\<close> and the
  current one has identity \<open>length retired\<close>. The head of \<open>stack\<close> is the top of the
  stack. \<open>source\<close> is the state of the pull callback.
\<close>

record 'src decoder =
  headByte :: int
  bytes :: "byte list"
  retired :: "byte list list"
  stack :: "view frame list"
  source :: "'src"

definition HEAD_BYTE_REQUIRED :: int where
  "HEAD_BYTE_REQUIRED = -1"

definition DEFAULT_INITIAL_BUFFER_SIZE :: nat where
  "DEFAULT_INITIAL_BUFFER_SIZE = 2048"

definition UINT32_MAX :: nat where
  "UINT32_MAX = 4294967295"

definition newStreamDecoder :: "'src \<Rightarrow> 'src decoder" where
  "newStreamDecoder src =
     \<lparr>headByte = HEAD_BYTE_REQUIRED,
      bytes = replicate DEFAULT_INITIAL_BUFFER_SIZE 0,
      retired = [],
      stack = [],
      source = src\<rparr>"

text \<open>The contents of ArrayBuffer \<open>i\<close>, and what a view reads.\<close>

definition buffers :: "'src decoder \<Rightarrow> byte list list" where
  "buffers s = retired s @ [bytes s]"

definition viewBytes :: "'src decoder \<Rightarrow> view \<Rightarrow> byte list" where
  "viewBytes s v = (if fst v < length (buffers s) then take (snd v) (buffers s ! fst v) else [])"

subsection \<open>Throwing and sequencing\<close>

type_synonym ('a, 's) action = "'s \<Rightarrow> (error + 'a) \<times> 's"

definition ret :: "'a \<Rightarrow> ('a, 's) action" where
  "ret a s = (Inr a, s)"

definition throw :: "error \<Rightarrow> ('a, 's) action" where
  "throw e s = (Inl e, s)"

definition bnd :: "('a, 's) action \<Rightarrow> ('a \<Rightarrow> ('b, 's) action) \<Rightarrow> ('b, 's) action" where
  "bnd m f s = (case m s of (Inl e, s') \<Rightarrow> (Inl e, s') | (Inr a, s') \<Rightarrow> f a s')"

subsection \<open>The scratch buffer and the read-N-bytes primitive\<close>

definition resizeBuffer :: "nat \<Rightarrow> 'src decoder \<Rightarrow> 'src decoder" where
  "resizeBuffer newSize s = s\<lparr>retired := retired s @ [bytes s], bytes := replicate newSize 0\<rparr>"

definition ensureBufferSizeToWrite :: "nat \<Rightarrow> 'src decoder \<Rightarrow> 'src decoder" where
  "ensureBufferSizeToWrite sizeToWrite s =
     (if length (bytes s) < sizeToWrite then resizeBuffer (length (bytes s) * 2) s else s)"

text \<open>
  One call \<open>this.read(this.bytes.subarray(pos, length))\<close>. \<open>subarray\<close> clamps both
  ends to the buffer, so the view starts at \<open>min pos capacity\<close> and is empty when the
  end does not lie beyond the start. Calling a \<open>read\<close> that is not a function throws a
  TypeError.
\<close>

definition callRead :: "'src params \<Rightarrow> nat \<Rightarrow> nat \<Rightarrow> (int, 'src decoder) action" where
  "callRead p pos len s =
     (case read p of
        AsyncIterable chunks \<Rightarrow> (Inl (TypeError ''this.read is not a function''), s)
      | Callback f \<Rightarrow>
          (let cap = length (bytes s);
               b = min pos cap;
               n = min len cap - b;
               (written, count, src') = f (source s) n;
               w = take n written
           in (Inr count,
               s\<lparr>bytes := take b (bytes s) @ w @ drop (b + length w) (bytes s),
                 source := src'\<rparr>)))"

function readBytesLoop :: "'src params \<Rightarrow> nat \<Rightarrow> nat \<Rightarrow> (unit, 'src decoder) action" where
  "readBytesLoop p len pos s =
     (if pos < len then
        (case callRead p pos len s of
           (Inl e, s') \<Rightarrow> (Inl e, s')
         | (Inr count, s') \<Rightarrow>
             if count \<le> 0 then (Inl MORE_DATA, s')
             else readBytesLoop p len (pos + nat count) s')
      else (Inr (), s))"
  by pat_completeness auto
termination
  by (relation "measure (\<lambda>(p, len, pos, s). len - pos)") auto

definition readBytes :: "'src params \<Rightarrow> nat \<Rightarrow> (view, 'src decoder) action" where
  "readBytes p len s =
     (case readBytesLoop p len 0 (ensureBufferSizeToWrite len s) of
        (Inl e, s') \<Rightarrow> (Inl e, s')
      | (Inr u, s') \<Rightarrow> (Inr (length (retired s'), min len (length (bytes s'))), s'))"

subsection \<open>Reading numbers\<close>

text \<open>
  The DataView getters at offset 0, big-endian. A getter throws a RangeError when the
  view is shorter than what it reads.
\<close>

definition beNat :: "byte list \<Rightarrow> nat" where
  "beNat bs = foldl (\<lambda>acc b. acc * 256 + unat b) 0 bs"

definition toSigned :: "nat \<Rightarrow> nat \<Rightarrow> int" where
  "toSigned bits n = (if n < 2 ^ (bits - 1) then int n else int n - 2 ^ bits)"

definition getUint :: "nat \<Rightarrow> (nat, 'src decoder) action" where
  "getUint n s =
     (if length (bytes s) < n
      then (Inl (RangeError ''Offset is outside the bounds of the DataView''), s)
      else (Inr (beNat (take n (bytes s))), s))"

definition getInt :: "nat \<Rightarrow> (int, 'src decoder) action" where
  "getInt n = bnd (getUint n) (\<lambda>u. ret (toSigned (8 * n) u))"

definition readU8 :: "'src params \<Rightarrow> (nat, 'src decoder) action" where
  "readU8 p = bnd (readBytes p 1) (\<lambda>_. getUint 1)"

definition readI8 :: "'src params \<Rightarrow> (int, 'src decoder) action" where
  "readI8 p = bnd (readBytes p 1) (\<lambda>_. getInt 1)"

definition readU16 :: "'src params \<Rightarrow> (nat, 'src decoder) action" where
  "readU16 p = bnd (readBytes p 2) (\<lambda>_. getUint 2)"

definition readI16 :: "'src params \<Rightarrow> (int, 'src decoder) action" where
  "readI16 p = bnd (readBytes p 2) (\<lambda>_. getInt 2)"

definition readU32 :: "'src params \<Rightarrow> (nat, 'src decoder) action" where
  "readU32 p = bnd (readBytes p 4) (\<lambda>_. getUint 4)"

definition readI32 :: "'src params \<Rightarrow> (int, 'src decoder) action" where
  "readI32 p = bnd (readBytes p 4) (\<lambda>_. getInt 4)"

text \<open>
  Modelled from the spec: \<open>getUint64\<close> and \<open>getInt64\<close> of ./utils/int are not among the
  sources. The spec's Integer spans 64 bits, so the eight bytes are read as the exact
  unsigned or two's-complement integer.
\<close>

definition readU64 :: "'src params \<Rightarrow> (nat, 'src decoder) action" where
  "readU64 p = bnd (readBytes p 8) (\<lambda>_. getUint 8)"

definition readI64 :: "'src params \<Rightarrow> (int, 'src decoder) action" where
  "readI64 p = bnd (readBytes p 8) (\<lambda>_. getInt 8)"

definition readF32 :: "'src params \<Rightarrow> (number, 'src decoder) action" where
  "readF32 p = bnd (readBytes p 4) (\<lambda>_. bnd (getUint 4) (\<lambda>u. ret (Float32 (of_nat u))))"

definition readF64 :: "'src params \<Rightarrow> (number, 'src decoder) action" where
  "readF64 p = bnd (readBytes p 8) (\<lambda>_. bnd (getUint 8) (\<lambda>u. ret (Float64 (of_nat u))))"

definition readHeadByte :: "'src params \<Rightarrow> (int, 'src decoder) action" where
  "readHeadByte p s =
     (if headByte s = HEAD_BYTE_REQUIRED
      then bnd (readU8 p) (\<lambda>b s'. (Inr (int b), s'\<lparr>headByte := int b\<rparr>)) s
      else (Inr (headByte s), s))"

definition complete :: "(unit, 'src decoder) action" where
  "complete s = (Inr (), s\<lparr>headByte := HEAD_BYTE_REQUIRED\<rparr>)"

definition reinitializeState :: "'src decoder \<Rightarrow> 'src decoder" where
  "reinitializeState s = s\<lparr>headByte := HEAD_BYTE_REQUIRED, stack := []\<rparr>"

subsection \<open>Containers, strings, binaries and extensions\<close>

definition pushMapState :: "'src params \<Rightarrow> nat \<Rightarrow> (unit, 'src decoder) action" where
  "pushMapState p sz s =
     (if sz > maxMapLength p
      then (Inl (DecodeError ''Max length exceeded: map length''), s)
      else (Inr (), s\<lparr>stack := StackMapState STATE_MAP_KEY sz None 0 [] # stack s\<rparr>))"

definition pushArrayState :: "'src params \<Rightarrow> nat \<Rightarrow> (unit, 'src decoder) action" where
  "pushArrayState p sz s =
     (if sz > maxArrayLength p
      then (Inl (DecodeError ''Max length exceeded: array length''), s)
      else (Inr (), s\<lparr>stack := StackArrayState sz (replicate sz JUndefined) 0 # stack s\<rparr>))"

definition stateIsMapKey :: "'src decoder \<Rightarrow> bool" where
  "stateIsMapKey s =
     (case stack s of
        [] \<Rightarrow> False
      | StackArrayState sz array position # rest \<Rightarrow> False
      | StackMapState type sz key readCount m # rest \<Rightarrow> type = STATE_MAP_KEY)"

definition decodeUtf8String :: "'src params \<Rightarrow> nat \<Rightarrow> (string, 'src decoder) action" where
  "decodeUtf8String p byteLength =
     (if byteLength > maxStrLength p
      then throw (DecodeError ''Max length exceeded: UTF-8 byte length'')
      else bnd (readBytes p byteLength) (\<lambda>v s.
        let bs = viewBytes s v in
        (case (if stateIsMapKey s then keyDecoder p else None) of
           Some (canBeCached, keyDecode) \<Rightarrow>
             if canBeCached byteLength then (Inr (keyDecode bs), s)
             else if byteLength > TEXT_DECODER_THRESHOLD p then (Inr (utf8DecodeTD p bs), s)
             else (Inr (utf8DecodeJs p bs), s)
         | None \<Rightarrow>
             if byteLength > TEXT_DECODER_THRESHOLD p then (Inr (utf8DecodeTD p bs), s)
             else (Inr (utf8DecodeJs p bs), s))))"

definition decodeBinary :: "'src params \<Rightarrow> nat \<Rightarrow> (view, 'src decoder) action" where
  "decodeBinary p byteLength =
     (if byteLength > maxBinLength p
      then throw (DecodeError ''Max length exceeded: bin length'')
      else readBytes p byteLength)"

definition decodeExtension :: "'src params \<Rightarrow> nat \<Rightarrow> (view jsval, 'src decoder) action" where
  "decodeExtension p sz =
     (if sz > maxExtLength p
      then throw (DecodeError ''Max length exceeded: ext length'')
      else bnd (readI8 p) (\<lambda>extType.
           bnd (decodeBinary p sz) (\<lambda>data s.
             (extensionCodec p data (viewBytes s data) extType, s))))"

subsection \<open>The header byte\<close>

text \<open>
  The body of a map branch and of an array branch of \<open>doDecodeSync\<close>: a container of
  size 0 is complete at once; otherwise its frame is pushed, the head byte is cleared
  and the loop continues (\<open>None\<close>).
\<close>

definition mapOfSize :: "'src params \<Rightarrow> nat \<Rightarrow> (view jsval option, 'src decoder) action" where
  "mapOfSize p sz =
     (if sz \<noteq> 0
      then bnd (pushMapState p sz) (\<lambda>_. bnd complete (\<lambda>_. ret None))
      else ret (Some (JObject [])))"

definition arrayOfSize :: "'src params \<Rightarrow> nat \<Rightarrow> (view jsval option, 'src decoder) action" where
  "arrayOfSize p sz =
     (if sz \<noteq> 0
      then bnd (pushArrayState p sz) (\<lambda>_. bnd complete (\<lambda>_. ret None))
      else ret (Some (JArray [])))"

definition strOfLength :: "'src params \<Rightarrow> nat \<Rightarrow> (view jsval option, 'src decoder) action" where
  "strOfLength p byteLength = bnd (decodeUtf8String p byteLength) (\<lambda>str. ret (Some (JString str)))"

definition binOfSize :: "'src params \<Rightarrow> nat \<Rightarrow> (view jsval option, 'src decoder) action" where
  "binOfSize p sz = bnd (decodeBinary p sz) (\<lambda>v. ret (Some (JUint8Array v)))"

definition extOfSize :: "'src params \<Rightarrow> nat \<Rightarrow> (view jsval option, 'src decoder) action" where
  "extOfSize p sz = bnd (decodeExtension p sz) (\<lambda>object. ret (Some object))"

definition uintOf :: "(nat, 'src decoder) action \<Rightarrow> (view jsval option, 'src decoder) action" where
  "uintOf rd = bnd rd (\<lambda>n. ret (Some (JNumber (Integer (int n)))))"

definition intOf :: "(int, 'src decoder) action \<Rightarrow> (view jsval option, 'src decoder) action" where
  "intOf rd = bnd rd (\<lambda>i. ret (Some (JNumber (Integer i))))"

definition floatOf :: "(number, 'src decoder) action \<Rightarrow> (view jsval option, 'src decoder) action" where
  "floatOf rd = bnd rd (\<lambda>x. ret (Some (JNumber x)))"

text \<open>
  The if-chain of \<open>doDecodeSync\<close> on the head byte, in the source's order. The result is
  \<open>Some object\<close> when the branch assigns \<open>object\<close>, and \<open>None\<close> when it ends in
  \<open>continue DECODE\<close>.
\<close>

definition decodeHead :: "'src params \<Rightarrow> int \<Rightarrow> (view jsval option, 'src decoder) action" where
  "decodeHead p hb =
     (if hb \<ge> 0xe0 then ret (Some (JNumber (Integer (hb - 0x100))))
      else if hb < 0xc0 then
        (if hb < 0x80 then ret (Some (JNumber (Integer hb)))
         else if hb < 0x90 then mapOfSize p (nat (hb - 0x80))
         else if hb < 0xa0 then arrayOfSize p (nat (hb - 0x90))
         else strOfLength p (nat (hb - 0xa0)))
      else if hb = 0xc0 then ret (Some JNull)
      else if hb = 0xc2 then ret (Some (JBoolean False))
      else if hb = 0xc3 then ret (Some (JBoolean True))
      else if hb = 0xca then floatOf (readF32 p)
      else if hb = 0xcb then floatOf (readF64 p)
      else if hb = 0xcc then uintOf (readU8 p)
      else if hb = 0xcd then uintOf (readU16 p)
      else if hb = 0xce then uintOf (readU32 p)
      else if hb = 0xcf then uintOf (readU64 p)
      else if hb = 0xd0 then intOf (readI8 p)
      else if hb = 0xd1 then intOf (readI16 p)
      else if hb = 0xd2 then intOf (readI32 p)
      else if hb = 0xd3 then intOf (readI64 p)
      else if hb = 0xd9 then bnd (readU8 p) (strOfLength p)
      else if hb = 0xda then bnd (readU16 p) (strOfLength p)
      else if hb = 0xdb then bnd (readU32 p) (strOfLength p)
      else if hb = 0xdc then bnd (readU16 p) (arrayOfSize p)
      else if hb = 0xdd then bnd (readU32 p) (arrayOfSize p)
      else if hb = 0xde then bnd (readU16 p) (mapOfSize p)
      else if hb = 0xdf then bnd (readU32 p) (mapOfSize p)
      else if hb = 0xc4 then bnd (readU8 p) (binOfSize p)
      else if hb = 0xc5 then bnd (readU16 p) (binOfSize p)
      else if hb = 0xc6 then bnd (readU32 p) (binOfSize p)
      else if hb = 0xd4 then extOfSize p 1
      else if hb = 0xd5 then extOfSize p 2
      else if hb = 0xd6 then extOfSize p 4
      else if hb = 0xd7 then extOfSize p 8
      else if hb = 0xd8 then extOfSize p 16
      else if hb = 0xc7 then bnd (readU8 p) (extOfSize p)
      else if hb = 0xc8 then bnd (readU16 p) (extOfSize p)
      else if hb = 0xc9 then bnd (readU32 p) (extOfSize p)
      else throw (DecodeError ''Unrecognized type byte''))"

subsection \<open>Completing a value: the loop over the stack\<close>

text \<open>
  \<open>state.array[state.position] = object\<close>: an assignment beyond the end of a
  JavaScript array extends it with holes. \<open>state.map[state.key!] = object\<close> replaces the
  value of a key the record has and adds the key otherwise; a \<open>null\<close> key is the
  property \<open>null\<close>. The model keeps a key as the value it was decoded to, whereas
  JavaScript names the property by the key's string: a number key and the string of
  its digits are one property there and two entries here.
\<close>

definition arraySet :: "'b jsval list \<Rightarrow> nat \<Rightarrow> 'b jsval \<Rightarrow> 'b jsval list" where
  "arraySet xs i v =
     (if i < length xs then xs[i := v] else xs @ replicate (i - length xs) JUndefined @ [v])"

fun recordSet :: "('k \<times> 'v) list \<Rightarrow> 'k \<Rightarrow> 'v \<Rightarrow> ('k \<times> 'v) list" where
  "recordSet [] k v = [(k, v)]"
| "recordSet ((k', v') # kvs) k v =
     (if k' = k then (k, v) # kvs else (k', v') # recordSet kvs k v)"

definition keyOf :: "'b jsval option \<Rightarrow> 'b jsval" where
  "keyOf key = (case key of None \<Rightarrow> JNull | Some k \<Rightarrow> k)"

fun propagate :: "'b jsval \<Rightarrow> 'b frame list \<Rightarrow> (error + 'b jsval option) \<times> 'b frame list" where
  "propagate object [] = (Inr (Some object), [])"
| "propagate object (StackArrayState sz array position # rest) =
     (let array' = arraySet array position object;
          position' = position + 1
      in if position' = sz then propagate (JArray array') rest
         else (Inr None, StackArrayState sz array' position' # rest))"
| "propagate object (StackMapState STATE_MAP_KEY sz key readCount m # rest) =
     (if \<not> isValidMapKeyType object
      then (Inl (DecodeError (''The type of key must be string or number but '' @ typeof object)),
            StackMapState STATE_MAP_KEY sz key readCount m # rest)
      else if object = JString ''__proto__''
      then (Inl (DecodeError ''The key __proto__ is not allowed''),
            StackMapState STATE_MAP_KEY sz key readCount m # rest)
      else (Inr None, StackMapState STATE_MAP_VALUE sz (Some object) readCount m # rest))"
| "propagate object (StackMapState STATE_MAP_VALUE sz key readCount m # rest) =
     (let m' = recordSet m (keyOf key) object;
          readCount' = readCount + 1
      in if readCount' = sz then propagate (JObject m') rest
         else (Inr None, StackMapState STATE_MAP_KEY sz None readCount' m' # rest))"

definition propagateStack :: "view jsval \<Rightarrow> (view jsval option, 'src decoder) action" where
  "propagateStack object s =
     (case propagate object (stack s) of (r, stk) \<Rightarrow> (r, s\<lparr>stack := stk\<rparr>))"

subsection \<open>The decode loop\<close>

text \<open>
  One turn of the loop \<open>DECODE\<close>: \<open>None\<close> is \<open>continue DECODE\<close>, \<open>Some object\<close> is
  \<open>return object\<close>. The loop runs as long as the source supplies container headers, so
  \<open>doDecodeSync\<close> is partial: \<open>None\<close> is a loop that does not end.
\<close>

definition decodeStep :: "'src params \<Rightarrow> (view jsval option, 'src decoder) action" where
  "decodeStep p =
     bnd (readHeadByte p) (\<lambda>hb.
     bnd (decodeHead p hb) (\<lambda>r.
       case r of
         None \<Rightarrow> ret None
       | Some object \<Rightarrow> bnd complete (\<lambda>_. propagateStack object)))"

partial_function (option) doDecodeSync ::
  "'src params \<Rightarrow> 'src decoder \<Rightarrow> ((error + view jsval) \<times> 'src decoder) option" where
  "doDecodeSync p s =
     (case decodeStep p s of
        (Inl e, s') \<Rightarrow> Some (Inl e, s')
      | (Inr None, s') \<Rightarrow> doDecodeSync p s'
      | (Inr (Some object), s') \<Rightarrow> Some (Inr object, s'))"

definition decode :: "'src params \<Rightarrow> 'src decoder \<Rightarrow> ((error + view jsval) \<times> 'src decoder) option" where
  "decode p s = doDecodeSync p (reinitializeState s)"

text \<open>
  \<open>decodeStream\<close> of src/src/decode.ts: a new decoder on \<open>read\<close>, and one \<open>decode\<close>.
\<close>

definition decodeStream :: "'src params \<Rightarrow> 'src \<Rightarrow> ((error + view jsval) \<times> 'src decoder) option" where
  "decodeStream p src = decode p (newStreamDecoder src)"

declare doDecodeSync.simps [code]

declare readBytesLoop.simps [simp del]

subsection \<open>Pull callbacks\<close>

text \<open>
  The callback of the benchmark (src/unnamed/part_000): it copies what is left of
  \<open>encoded\<close>, at most as much as the view takes, and returns the number of bytes copied.
  Its state is the variable \<open>pos\<close>.
\<close>

definition benchmarkRead :: "byte list \<Rightarrow> nat \<Rightarrow> nat \<Rightarrow> byte list \<times> int \<times> nat" where
  "benchmarkRead encoded pos n =
     (let end = min (n + pos) (length encoded)
      in (take (end - pos) (drop pos encoded), int end - int pos, end))"

text \<open>
  A callback observed: beside the callback's own state, a flag records that it has
  reported exhaustion, that is, has returned a number that is not positive.
\<close>

definition monitor ::
  "('x \<Rightarrow> nat \<Rightarrow> byte list \<times> int \<times> 'x) \<Rightarrow> 'x \<times> bool \<Rightarrow> nat \<Rightarrow> byte list \<times> int \<times> ('x \<times> bool)" where
  "monitor f xb n = (case f (fst xb) n of (w, c, x') \<Rightarrow> (w, c, (x', snd xb \<or> c \<le> 0)))"

definition reported :: "('x \<times> bool) decoder \<Rightarrow> bool" where
  "reported s = snd (source s)"

text \<open>
  The parameters \<open>decodeStream\<close> passes when no option is given: every limit is
  \<open>UINT32_MAX\<close>. The default extension codec and the UTF-8 decoders are not among the
  sources; the ones here reject every extension type and read each byte as one
  character, and serve only where a concrete decoder is run.
\<close>

definition defaultParams :: "'src reader \<Rightarrow> 'src params" where
  "defaultParams rd =
     \<lparr>read = rd,
      extensionCodec = (\<lambda>data bs extType. Inl (DecodeError ''Unrecognized extension type'')),
      maxStrLength = UINT32_MAX, maxBinLength = UINT32_MAX, maxArrayLength = UINT32_MAX,
      maxMapLength = UINT32_MAX, maxExtLength = UINT32_MAX,
      keyDecoder = None,
      utf8DecodeJs = map (\<lambda>b. char_of (unat b)),
      utf8DecodeTD = map (\<lambda>b. char_of (unat b)),
      TEXT_DECODER_THRESHOLD = 200\<rparr>"

section \<open>The buffer-resident decoder\<close>

text \<open>
  Modelled from the spec: the class \<open>Decoder\<close> (./Decoder), which \<open>decode\<close> of
  src/src/decode.ts constructs and runs, is not among the sources. The spec gives it the
  parsing algorithm of the stream decoder and lets the two differ only in how raw bytes
  are obtained: here a complete buffer and a cursor. So every definition of this section
  is the corresponding one of StreamDecoder.ts with the read-N-bytes primitive replaced;
  the options are the five limits, the extension codec and the UTF-8 decoder. A binary is
  the bytes it spans in the buffer, which never change.
\<close>

record decoderParams =
  bufExtensionCodec :: "byte list \<Rightarrow> int \<Rightarrow> error + byte list jsval"
  bufMaxStrLength :: nat
  bufMaxBinLength :: nat
  bufMaxArrayLength :: nat
  bufMaxMapLength :: nat
  bufMaxExtLength :: nat
  bufUtf8Decode :: "byte list \<Rightarrow> string"

text \<open>
  Modelled from the spec: the state of the absent \<open>Decoder\<close>, that is the head-byte
  sentinel, the buffer, the cursor and the frame stack (head = top).
\<close>

record bufDecoder =
  bufHeadByte :: int
  bufBytes :: "byte list"
  bufPos :: nat
  bufStack :: "byte list frame list"

text \<open>
  Modelled from the spec: the read-N-bytes primitive of the absent \<open>Decoder\<close>, a bounds
  check against the fixed buffer; running out of bytes is the insufficient-data
  condition.
\<close>

definition bufReadBytes :: "nat \<Rightarrow> (byte list, bufDecoder) action" where
  "bufReadBytes n st =
     (if bufPos st + n > length (bufBytes st) then (Inl MORE_DATA, st)
      else (Inr (take n (drop (bufPos st) (bufBytes st))), st\<lparr>bufPos := bufPos st + n\<rparr>))"

text \<open>
  Modelled from the spec: the unsigned and the signed big-endian number of \<open>n\<close> bytes, read
  through the read-N-bytes primitive of the absent \<open>Decoder\<close>.
\<close>

definition bufReadUint :: "nat \<Rightarrow> (nat, bufDecoder) action" where
  "bufReadUint n = bnd (bufReadBytes n) (\<lambda>bs. ret (beNat bs))"

definition bufReadInt :: "nat \<Rightarrow> (int, bufDecoder) action" where
  "bufReadInt n = bnd (bufReadBytes n) (\<lambda>bs. ret (toSigned (8 * n) (beNat bs)))"

text \<open>
  Modelled from the spec: step 2 of the shared algorithm in the absent \<open>Decoder\<close>, read
  one header byte if the sentinel indicates none pending.
\<close>

definition bufReadHeadByte :: "(int, bufDecoder) action" where
  "bufReadHeadByte st =
     (if bufHeadByte st = HEAD_BYTE_REQUIRED
      then bnd (bufReadUint 1) (\<lambda>b st'. (Inr (int b), st'\<lparr>bufHeadByte := int b\<rparr>)) st
      else (Inr (bufHeadByte st), st))"

text \<open>
  Modelled from the spec: resetting the head-byte sentinel in the absent \<open>Decoder\<close>, as
  \<open>complete\<close> does.
\<close>

definition bufComplete :: "(unit, bufDecoder) action" where
  "bufComplete st = (Inr (), st\<lparr>bufHeadByte := HEAD_BYTE_REQUIRED\<rparr>)"

text \<open>
  Modelled from the spec: pushing a map frame and an array frame in the absent
  \<open>Decoder\<close>, after validating the declared size against the maximum of that container
  kind.
\<close>

definition bufPushMapState :: "decoderParams \<Rightarrow> nat \<Rightarrow> (unit, bufDecoder) action" where
  "bufPushMapState p sz st =
     (if sz > bufMaxMapLength p
      then (Inl (DecodeError ''Max length exceeded: map length''), st)
      else (Inr (), st\<lparr>bufStack := StackMapState STATE_MAP_KEY sz None 0 [] # bufStack st\<rparr>))"

definition bufPushArrayState :: "decoderParams \<Rightarrow> nat \<Rightarrow> (unit, bufDecoder) action" where
  "bufPushArrayState p sz st =
     (if sz > bufMaxArrayLength p
      then (Inl (DecodeError ''Max length exceeded: array length''), st)
      else (Inr (), st\<lparr>bufStack := StackArrayState sz (replicate sz JUndefined) 0 # bufStack st\<rparr>))"

text \<open>
  Modelled from the spec: the branches of the header-byte table in the absent
  \<open>Decoder\<close>, as \<open>mapOfSize\<close>, \<open>arrayOfSize\<close>, \<open>strOfLength\<close>, \<open>binOfSize\<close>, \<open>extOfSize\<close>,
  \<open>uintOf\<close> and \<open>intOf\<close> are those of the stream decoder. An extension reads the signed
  type code, then the payload, then asks the codec.
\<close>

definition bufMapOfSize :: "decoderParams \<Rightarrow> nat \<Rightarrow> (byte list jsval option, bufDecoder) action" where
  "bufMapOfSize p sz =
     (if sz \<noteq> 0
      then bnd (bufPushMapState p sz) (\<lambda>_. bnd bufComplete (\<lambda>_. ret None))
      else ret (Some (JObject [])))"

definition bufArrayOfSize :: "decoderParams \<Rightarrow> nat \<Rightarrow> (byte list jsval option, bufDecoder) action" where
  "bufArrayOfSize p sz =
     (if sz \<noteq> 0
      then bnd (bufPushArrayState p sz) (\<lambda>_. bnd bufComplete (\<lambda>_. ret None))
      else ret (Some (JArray [])))"

definition bufStrOfLength :: "decoderParams \<Rightarrow> nat \<Rightarrow> (byte list jsval option, bufDecoder) action" where
  "bufStrOfLength p byteLength =
     (if byteLength > bufMaxStrLength p
      then throw (DecodeError ''Max length exceeded: UTF-8 byte length'')
      else bnd (bufReadBytes byteLength) (\<lambda>bs. ret (Some (JString (bufUtf8Decode p bs)))))"

definition bufBinOfSize :: "decoderParams \<Rightarrow> nat \<Rightarrow> (byte list jsval option, bufDecoder) action" where
  "bufBinOfSize p sz =
     (if sz > bufMaxBinLength p
      then throw (DecodeError ''Max length exceeded: bin length'')
      else bnd (bufReadBytes sz) (\<lambda>bs. ret (Some (JUint8Array bs))))"

definition bufExtOfSize :: "decoderParams \<Rightarrow> nat \<Rightarrow> (byte list jsval option, bufDecoder) action" where
  "bufExtOfSize p sz =
     (if sz > bufMaxExtLength p
      then throw (DecodeError ''Max length exceeded: ext length'')
      else bnd (bufReadInt 1) (\<lambda>extType.
           if sz > bufMaxBinLength p
           then throw (DecodeError ''Max length exceeded: bin length'')
           else bnd (bufReadBytes sz) (\<lambda>data st.
             (case bufExtensionCodec p data extType of
                Inl e \<Rightarrow> (Inl e, st)
              | Inr object \<Rightarrow> (Inr (Some object), st)))))"

definition bufUintOf :: "nat \<Rightarrow> (byte list jsval option, bufDecoder) action" where
  "bufUintOf n = bnd (bufReadUint n) (\<lambda>u. ret (Some (JNumber (Integer (int u)))))"

definition bufIntOf :: "nat \<Rightarrow> (byte list jsval option, bufDecoder) action" where
  "bufIntOf n = bnd (bufReadInt n) (\<lambda>i. ret (Some (JNumber (Integer i))))"

text \<open>
  Modelled from the spec: the classification of the header byte in the absent
  \<open>Decoder\<close>, by the fixed MessagePack header-byte table, in the order of \<open>decodeHead\<close>.
\<close>

definition bufDecodeHead :: "decoderParams \<Rightarrow> int \<Rightarrow> (byte list jsval option, bufDecoder) action" where
  "bufDecodeHead p hb =
     (if hb \<ge> 0xe0 then ret (Some (JNumber (Integer (hb - 0x100))))
      else if hb < 0xc0 then
        (if hb < 0x80 then ret (Some (JNumber (Integer hb)))
         else if hb < 0x90 then bufMapOfSize p (nat (hb - 0x80))
         else if hb < 0xa0 then bufArrayOfSize p (nat (hb - 0x90))
         else bufStrOfLength p (nat (hb - 0xa0)))
      else if hb = 0xc0 then ret (Some JNull)
      else if hb = 0xc2 then ret (Some (JBoolean False))
      else if hb = 0xc3 then ret (Some (JBoolean True))
      else if hb = 0xca then bnd (bufReadUint 4) (\<lambda>u. ret (Some (JNumber (Float32 (of_nat u)))))
      else if hb = 0xcb then bnd (bufReadUint 8) (\<lambda>u. ret (Some (JNumber (Float64 (of_nat u)))))
      else if hb = 0xcc then bufUintOf 1
      else if hb = 0xcd then bufUintOf 2
      else if hb = 0xce then bufUintOf 4
      else if hb = 0xcf then bufUintOf 8
      else if hb = 0xd0 then bufIntOf 1
      else if hb = 0xd1 then bufIntOf 2
      else if hb = 0xd2 then bufIntOf 4
      else if hb = 0xd3 then bufIntOf 8
      else if hb = 0xd9 then bnd (bufReadUint 1) (bufStrOfLength p)
      else if hb = 0xda then bnd (bufReadUint 2) (bufStrOfLength p)
      else if hb = 0xdb then bnd (bufReadUint 4) (bufStrOfLength p)
      else if hb = 0xdc then bnd (bufReadUint 2) (bufArrayOfSize p)
      else if hb = 0xdd then bnd (bufReadUint 4) (bufArrayOfSize p)
      else if hb = 0xde then bnd (bufReadUint 2) (bufMapOfSize p)
      else if hb = 0xdf then bnd (bufReadUint 4) (bufMapOfSize p)
      else if hb = 0xc4 then bnd (bufReadUint 1) (bufBinOfSize p)
      else if hb = 0xc5 then bnd (bufReadUint 2) (bufBinOfSize p)
      else if hb = 0xc6 then bnd (bufReadUint 4) (bufBinOfSize p)
      else if hb = 0xd4 then bufExtOfSize p 1
      else if hb = 0xd5 then bufExtOfSize p 2
      else if hb = 0xd6 then bufExtOfSize p 4
      else if hb = 0xd7 then bufExtOfSize p 8
      else if hb = 0xd8 then bufExtOfSize p 16
      else if hb = 0xc7 then bnd (bufReadUint 1) (bufExtOfSize p)
      else if hb = 0xc8 then bnd (bufReadUint 2) (bufExtOfSize p)
      else if hb = 0xc9 then bnd (bufReadUint 4) (bufExtOfSize p)
      else throw (DecodeError ''Unrecognized type byte''))"

text \<open>
  Modelled from the spec: step 3 of the shared algorithm in the absent \<open>Decoder\<close>, the
  propagation of a completed value through the frame stack, which is \<open>propagate\<close>.
\<close>

definition bufPropagateStack :: "byte list jsval \<Rightarrow> (byte list jsval option, bufDecoder) action" where
  "bufPropagateStack object st =
     (case propagate object (bufStack st) of (r, stk) \<Rightarrow> (r, st\<lparr>bufStack := stk\<rparr>))"

text \<open>
  Modelled from the spec: one turn of the loop of the absent \<open>Decoder\<close>, and the loop,
  as \<open>decodeStep\<close> and \<open>doDecodeSync\<close>.
\<close>

definition bufDecodeStep :: "decoderParams \<Rightarrow> (byte list jsval option, bufDecoder) action" where
  "bufDecodeStep p =
     bnd bufReadHeadByte (\<lambda>hb.
     bnd (bufDecodeHead p hb) (\<lambda>r.
       case r of
         None \<Rightarrow> ret None
       | Some object \<Rightarrow> bnd bufComplete (\<lambda>_. bufPropagateStack object)))"

partial_function (option) bufDoDecodeSync ::
  "decoderParams \<Rightarrow> bufDecoder \<Rightarrow> ((error + byte list jsval) \<times> bufDecoder) option" where
  "bufDoDecodeSync p st =
     (case bufDecodeStep p st of
        (Inl e, st') \<Rightarrow> Some (Inl e, st')
      | (Inr None, st') \<Rightarrow> bufDoDecodeSync p st'
      | (Inr (Some object), st') \<Rightarrow> Some (Inr object, st'))"

text \<open>
  Modelled from the spec: \<open>decode\<close> of src/src/decode.ts runs \<open>decode\<close> of the absent
  \<open>Decoder\<close> on the buffer: the stack and the sentinel are reset, one value is decoded,
  and trailing bytes after it are a decode error.
\<close>

definition bufDecode :: "decoderParams \<Rightarrow> byte list \<Rightarrow> (error + byte list jsval) option" where
  "bufDecode p buffer =
     (case bufDoDecodeSync p
             \<lparr>bufHeadByte = HEAD_BYTE_REQUIRED, bufBytes = buffer, bufPos = 0, bufStack = []\<rparr> of
        None \<Rightarrow> None
      | Some (Inl e, st) \<Rightarrow> Some (Inl e)
      | Some (Inr object, st) \<Rightarrow>
          if bufPos st < length (bufBytes st) then Some (Inl (DecodeError ''Extra bytes found''))
          else Some (Inr object))"

text \<open>
  Modelled from the spec: the options \<open>decode\<close> passes when none is given, every limit
  being the maximum 32-bit unsigned value; the extension codec and the UTF-8 decoder
  are those of \<open>defaultParams\<close>.
\<close>

definition defaultDecoderParams :: decoderParams where
  "defaultDecoderParams =
     \<lparr>bufExtensionCodec = (\<lambda>data extType. Inl (DecodeError ''Unrecognized extension type'')),
      bufMaxStrLength = UINT32_MAX, bufMaxBinLength = UINT32_MAX, bufMaxArrayLength = UINT32_MAX,
      bufMaxMapLength = UINT32_MAX, bufMaxExtLength = UINT32_MAX,
      bufUtf8Decode = map (\<lambda>b. char_of (unat b))\<rparr>"

subsection \<open>Chunked sources\<close>

text \<open>
  A pull callback that delivers given chunks in their order: each call hands over what
  is left of the current chunk, and no more than the view takes, as the benchmark's
  callback does with its single chunk. When no chunk is left it returns 0.
\<close>

definition chunkRead :: "byte list list \<Rightarrow> nat \<Rightarrow> byte list \<times> int \<times> byte list list" where
  "chunkRead chunks n =
     (case chunks of
        [] \<Rightarrow> ([], 0, [])
      | c # cs \<Rightarrow>
          if length c \<le> n then (c, int (length c), cs)
          else (take n c, int n, drop n c # cs))"

section \<open>The encoder\<close>

text \<open>
  Modelled from the spec: the class \<open>Encoder\<close> (./Encoder), which \<open>encode\<close> of
  src/src/encode.ts constructs and runs, is not among the sources. It fails with a
  depth-exceeded error or with an unsupported-value error; its options are the maximum
  depth and the extension registry's \<open>encode\<close>, which answers with a type code and a
  payload for the values it claims. The UTF-8 encoder (./utils/utf8) and the widening of
  a 32-bit float to the 64-bit representation are parameters too.
\<close>

datatype encodeError = DepthExceeded | UnsupportedValue

record encoderParams =
  maxDepth :: nat
  extensionEncode :: "byte list jsval \<Rightarrow> (int \<times> byte list) option"
  utf8Encode :: "string \<Rightarrow> byte list"
  float32ToFloat64 :: "32 word \<Rightarrow> 64 word"

text \<open>
  Modelled from the spec: the \<open>k\<close> bytes of the big-endian number \<open>n\<close>, as the absent
  \<open>Encoder\<close> writes the 8-, 16-, 32- and 64-bit forms.
\<close>

fun beBytes :: "nat \<Rightarrow> nat \<Rightarrow> byte list" where
  "beBytes 0 n = []"
| "beBytes (Suc k) n = beBytes k (n div 256) @ [of_nat (n mod 256)]"

text \<open>
  Modelled from the spec: an integer in the absent \<open>Encoder\<close> takes the smallest wire
  representation that round-trips it exactly: the single-byte fixint for -32..127, else
  the narrowest unsigned form for a positive and the narrowest signed form for a
  negative number, of 8, 16, 32 or 64 bits (two's complement). An integer outside the
  64-bit forms is not supported.
\<close>

definition encodeInteger :: "int \<Rightarrow> encodeError + byte list" where
  "encodeInteger i =
     (if 0 \<le> i then
        (if i < 128 then Inr [of_int i]
         else if i < 256 then Inr (0xcc # beBytes 1 (nat i))
         else if i < 65536 then Inr (0xcd # beBytes 2 (nat i))
         else if i < 4294967296 then Inr (0xce # beBytes 4 (nat i))
         else if i < 18446744073709551616 then Inr (0xcf # beBytes 8 (nat i))
         else Inl UnsupportedValue)
      else
        (if - 32 \<le> i then Inr [of_int i]
         else if - 128 \<le> i then Inr (0xd0 # beBytes 1 (nat (i + 256)))
         else if - 32768 \<le> i then Inr (0xd1 # beBytes 2 (nat (i + 65536)))
         else if - 2147483648 \<le> i then Inr (0xd2 # beBytes 4 (nat (i + 4294967296)))
         else if - 9223372036854775808 \<le> i
           then Inr (0xd3 # beBytes 8 (nat (i + 18446744073709551616)))
         else Inl UnsupportedValue))"

text \<open>
  Modelled from the spec: the headers of the absent \<open>Encoder\<close>. A string has its UTF-8
  byte length inline when short, else in an 8-, 16- or 32-bit length prefix; a binary
  has an 8-, 16- or 32-bit length prefix; an array and a map have their size inline when
  small, else in a 16- or 32-bit prefix; an extension has the fixext forms for the
  payload lengths 1, 2, 4, 8 and 16, else an 8-, 16- or 32-bit length prefix. Header
  bytes are those of the header-byte table of \<open>decodeHead\<close>.
\<close>

definition strHeader :: "nat \<Rightarrow> encodeError + byte list" where
  "strHeader n =
     (if n < 32 then Inr [of_nat (0xa0 + n)]
      else if n < 256 then Inr (0xd9 # beBytes 1 n)
      else if n < 65536 then Inr (0xda # beBytes 2 n)
      else if n < 4294967296 then Inr (0xdb # beBytes 4 n)
      else Inl UnsupportedValue)"

definition binHeader :: "nat \<Rightarrow> encodeError + byte list" where
  "binHeader n =
     (if n < 256 then Inr (0xc4 # beBytes 1 n)
      else if n < 65536 then Inr (0xc5 # beBytes 2 n)
      else if n < 4294967296 then Inr (0xc6 # beBytes 4 n)
      else Inl UnsupportedValue)"

definition arrayHeader :: "nat \<Rightarrow> encodeError + byte list" where
  "arrayHeader n =
     (if n < 16 then Inr [of_nat (0x90 + n)]
      else if n < 65536 then Inr (0xdc # beBytes 2 n)
      else if n < 4294967296 then Inr (0xdd # beBytes 4 n)
      else Inl UnsupportedValue)"

definition mapHeader :: "nat \<Rightarrow> encodeError + byte list" where
  "mapHeader n =
     (if n < 16 then Inr [of_nat (0x80 + n)]
      else if n < 65536 then Inr (0xde # beBytes 2 n)
      else if n < 4294967296 then Inr (0xdf # beBytes 4 n)
      else Inl UnsupportedValue)"

definition extHeader :: "nat \<Rightarrow> encodeError + byte list" where
  "extHeader n =
     (if n = 1 then Inr [0xd4]
      else if n = 2 then Inr [0xd5]
      else if n = 4 then Inr [0xd6]
      else if n = 8 then Inr [0xd7]
      else if n = 16 then Inr [0xd8]
      else if n < 256 then Inr (0xc7 # beBytes 1 n)
      else if n < 65536 then Inr (0xc8 # beBytes 2 n)
      else if n < 4294967296 then Inr (0xc9 # beBytes 4 n)
      else Inl UnsupportedValue)"

text \<open>
  Modelled from the spec: appending to the output buffer of the absent \<open>Encoder\<close>; the
  first error ends the encoding.
\<close>

definition withHeader :: "encodeError + byte list \<Rightarrow> encodeError + byte list \<Rightarrow> encodeError + byte list" where
  "withHeader h body =
     (case h of Inl e \<Rightarrow> Inl e
      | Inr hs \<Rightarrow> (case body of Inl e \<Rightarrow> Inl e | Inr bs \<Rightarrow> Inr (hs @ bs)))"

fun collect :: "(encodeError + byte list) list \<Rightarrow> encodeError + byte list" where
  "collect [] = Inr []"
| "collect (r # rs) = withHeader r (collect rs)"

text \<open>
  Modelled from the spec: a value of unrecognized shape in the absent \<open>Encoder\<close> goes to
  the extension registry; a claimed value is written as the extension header, the type
  code and the payload, and an unclaimed one is an unsupported value.
\<close>

definition encodeExtension :: "encoderParams \<Rightarrow> byte list jsval \<Rightarrow> encodeError + byte list" where
  "encodeExtension p v =
     (case extensionEncode p v of
        None \<Rightarrow> Inl UnsupportedValue
      | Some (extType, payload) \<Rightarrow>
          withHeader (extHeader (length payload))
            (Inr (of_int extType # payload)))"

text \<open>
  Modelled from the spec: \<open>encode(buffer, value, depth)\<close> of the absent \<open>Encoder\<close>. It
  fails when \<open>depth\<close> exceeds the maximum, and otherwise dispatches on the shape of the
  value; the elements of an array and the pairs of a map, key then value, are encoded
  at \<open>depth + 1\<close>. A float is written in the 64-bit representation.
\<close>

fun encodeValue :: "encoderParams \<Rightarrow> nat \<Rightarrow> byte list jsval \<Rightarrow> encodeError + byte list" where
  "encodeValue p depth v =
     (if depth > maxDepth p then Inl DepthExceeded
      else (case v of
          JNull \<Rightarrow> Inr [0xc0]
        | JBoolean b \<Rightarrow> Inr [if b then 0xc3 else 0xc2]
        | JNumber (Integer i) \<Rightarrow> encodeInteger i
        | JNumber (Float64 w) \<Rightarrow> Inr (0xcb # beBytes 8 (unat w))
        | JNumber (Float32 w) \<Rightarrow> Inr (0xcb # beBytes 8 (unat (float32ToFloat64 p w)))
        | JString str \<Rightarrow> withHeader (strHeader (length (utf8Encode p str))) (Inr (utf8Encode p str))
        | JUint8Array bs \<Rightarrow> withHeader (binHeader (length bs)) (Inr bs)
        | JArray xs \<Rightarrow>
            withHeader (arrayHeader (length xs)) (collect (map (encodeValue p (depth + 1)) xs))
        | JObject kvs \<Rightarrow>
            withHeader (mapHeader (length kvs))
              (collect (map (\<lambda>kv. withHeader (encodeValue p (depth + 1) (fst kv))
                                            (encodeValue p (depth + 1) (snd kv))) kvs))
        | JUndefined \<Rightarrow> encodeExtension p v
        | JOther h \<Rightarrow> encodeExtension p v))"

text \<open>
  \<open>encode\<close> of src/src/encode.ts: \<open>options.maxDepth || DEFAULT_MAX_DEPTH\<close> replaces a
  maximum depth of 0 by the default, and the value is encoded at depth 1.
\<close>

definition DEFAULT_MAX_DEPTH :: nat where
  "DEFAULT_MAX_DEPTH = 100"

definition encode :: "encoderParams \<Rightarrow> byte list jsval \<Rightarrow> encodeError + byte list" where
  "encode p v =
     encodeValue (p\<lparr>maxDepth := (if maxDepth p = 0 then DEFAULT_MAX_DEPTH else maxDepth p)\<rparr>) 1 v"

text \<open>
  Modelled from the spec: the options of \<open>encode\<close> when none is given. The default
  extension registry and the UTF-8 encoder are not among the sources; the ones here claim
  no value and write each character as one byte, the inverse of the decoder of
  \<open>defaultDecoderParams\<close>, and serve only where a concrete encoder is run.
\<close>

definition defaultEncoderParams :: encoderParams where
  "defaultEncoderParams =
     \<lparr>maxDepth = 0, extensionEncode = (\<lambda>v. None), utf8Encode = map (\<lambda>c. of_nat (of_char c)),
      float32ToFloat64 = (\<lambda>w. 0)\<rparr>"

section \<open>Notions the properties are stated with\<close>





fun allKeys :: "('b jsval \<Rightarrow> bool) \<Rightarrow> 'b jsval \<Rightarrow> bool" where
  "allKeys K (JArray xs) = list_all (allKeys K) xs"
| "allKeys K (JObject kvs) = list_all (\<lambda>kv. K (fst kv) \<and> allKeys K (snd kv)) kvs"
| "allKeys K v = True"

fun frameKeys :: "('b jsval \<Rightarrow> bool) \<Rightarrow> 'b frame \<Rightarrow> bool" where
  "frameKeys K (StackArrayState sz array position) = list_all (allKeys K) array"
| "frameKeys K (StackMapState type sz key readCount m) =
     (list_all (\<lambda>kv. K (fst kv) \<and> allKeys K (snd kv)) m \<and>
      (case type of
         STATE_MAP_KEY \<Rightarrow> True
       | STATE_MAP_VALUE \<Rightarrow> (case key of None \<Rightarrow> False | Some k \<Rightarrow> K k)))"

text \<open>
  The length a head byte declares, as the branch of \<open>doDecodeSync\<close> for that head byte
  reads it: from the head byte itself, or from the one, two or four bytes that follow.
  \<open>None\<close> for a head byte that declares no length. \<open>maxLength\<close> is the limit that
  applies to it and \<open>tooLong\<close> the error thrown when it is exceeded.
\<close>

datatype lengthKind = StrLength | BinLength | ArrayLength | MapLength | ExtLength

fun maxLength :: "'src params \<Rightarrow> lengthKind \<Rightarrow> nat" where
  "maxLength p StrLength = maxStrLength p"
| "maxLength p BinLength = maxBinLength p"
| "maxLength p ArrayLength = maxArrayLength p"
| "maxLength p MapLength = maxMapLength p"
| "maxLength p ExtLength = maxExtLength p"

definition lengthOf :: "lengthKind \<Rightarrow> (nat, 'src decoder) action \<Rightarrow>
    ((lengthKind \<times> nat) option, 'src decoder) action" where
  "lengthOf k rd = bnd rd (\<lambda>n. ret (Some (k, n)))"

definition lengthField :: "'src params \<Rightarrow> int \<Rightarrow> ((lengthKind \<times> nat) option, 'src decoder) action" where
  "lengthField p hb =
     (if hb \<ge> 0xe0 then ret None
      else if hb < 0xc0 then
        (if hb < 0x80 then ret None
         else if hb < 0x90 then ret (Some (MapLength, nat (hb - 0x80)))
         else if hb < 0xa0 then ret (Some (ArrayLength, nat (hb - 0x90)))
         else ret (Some (StrLength, nat (hb - 0xa0))))
      else if hb = 0xd9 then lengthOf StrLength (readU8 p)
      else if hb = 0xda then lengthOf StrLength (readU16 p)
      else if hb = 0xdb then lengthOf StrLength (readU32 p)
      else if hb = 0xdc then lengthOf ArrayLength (readU16 p)
      else if hb = 0xdd then lengthOf ArrayLength (readU32 p)
      else if hb = 0xde then lengthOf MapLength (readU16 p)
      else if hb = 0xdf then lengthOf MapLength (readU32 p)
      else if hb = 0xc4 then lengthOf BinLength (readU8 p)
      else if hb = 0xc5 then lengthOf BinLength (readU16 p)
      else if hb = 0xc6 then lengthOf BinLength (readU32 p)
      else if hb = 0xd4 then ret (Some (ExtLength, 1))
      else if hb = 0xd5 then ret (Some (ExtLength, 2))
      else if hb = 0xd6 then ret (Some (ExtLength, 4))
      else if hb = 0xd7 then ret (Some (ExtLength, 8))
      else if hb = 0xd8 then ret (Some (ExtLength, 16))
      else if hb = 0xc7 then lengthOf ExtLength (readU8 p)
      else if hb = 0xc8 then lengthOf ExtLength (readU16 p)
      else if hb = 0xc9 then lengthOf ExtLength (readU32 p)
      else ret None)"

definition tooLong :: "lengthKind \<Rightarrow> error" where
  "tooLong k =
     (case k of
        StrLength \<Rightarrow> DecodeError ''Max length exceeded: UTF-8 byte length''
      | BinLength \<Rightarrow> DecodeError ''Max length exceeded: bin length''
      | ArrayLength \<Rightarrow> DecodeError ''Max length exceeded: array length''
      | MapLength \<Rightarrow> DecodeError ''Max length exceeded: map length''
      | ExtLength \<Rightarrow> DecodeError ''Max length exceeded: ext length'')"

text \<open>A key that is not the string \<open>__proto__\<close>.\<close>

definition notProto :: "'b jsval \<Rightarrow> bool" where
  "notProto k = (k \<noteq> JString ''__proto__'')"

text \<open>
  A value of the stream decoder and a value of the buffer-resident decoder have the same
  shape when they are the same once every binary is replaced by its length. A stream
  decoder and a buffer-resident decoder have the same options when their limits and
  UTF-8 decoders agree and their extension codecs, given a payload view and the bytes it
  holds, fail alike or return values of the same shape.
\<close>

definition sameShape :: "view jsval \<Rightarrow> byte list jsval \<Rightarrow> bool" where
  "sameShape v w = (map_jsval snd v = map_jsval length w)"

definition sameOutcome :: "error + view jsval \<Rightarrow> error + byte list jsval \<Rightarrow> bool" where
  "sameOutcome r r' =
     (case r' of
        Inl e \<Rightarrow> r = Inl e
      | Inr w \<Rightarrow> (case r of Inl e \<Rightarrow> False | Inr v \<Rightarrow> sameShape v w))"

definition sameOptions :: "'src params \<Rightarrow> decoderParams \<Rightarrow> bool" where
  "sameOptions p dp =
     (maxStrLength p = bufMaxStrLength dp \<and> maxBinLength p = bufMaxBinLength dp \<and>
      maxArrayLength p = bufMaxArrayLength dp \<and> maxMapLength p = bufMaxMapLength dp \<and>
      maxExtLength p = bufMaxExtLength dp \<and>
      utf8DecodeJs p = bufUtf8Decode dp \<and> utf8DecodeTD p = bufUtf8Decode dp \<and>
      (case keyDecoder p of
         None \<Rightarrow> True
       | Some (canBeCached, keyDecode) \<Rightarrow> keyDecode = bufUtf8Decode dp) \<and>
      (\<forall>data bs extType. snd data = length bs \<longrightarrow>
         sameOutcome (extensionCodec p data bs extType) (bufExtensionCodec dp bs extType)))"

text \<open>
  The keys a map frame holds have passed the key test, and so has the pending key of a
  frame that awaits a value.
\<close>

fun keysReady :: "'b frame \<Rightarrow> bool" where
  "keysReady (StackArrayState sz array position) = True"
| "keysReady (StackMapState type sz key readCount m) =
     (list_all (\<lambda>kv. isValidMapKeyType (fst kv)) m \<and>
      (case type of
         STATE_MAP_KEY \<Rightarrow> True
       | STATE_MAP_VALUE \<Rightarrow> (case key of None \<Rightarrow> False | Some k \<Rightarrow> isValidMapKeyType k)))"

text \<open>
  The value a key-awaiting frame is given when \<open>object\<close> is completed on a stack, and
  the stack from that frame down: \<open>object\<close> itself when the frame is on top, or else the
  array or map that \<open>object\<close> completes, when \<open>object\<close> fills every frame above it.
\<close>

fun presentedKey :: "'b jsval \<Rightarrow> 'b frame list \<Rightarrow> ('b jsval \<times> 'b frame list) option" where
  "presentedKey object [] = None"
| "presentedKey object (StackArrayState sz array position # rest) =
     (if position + 1 = sz then presentedKey (JArray (arraySet array position object)) rest
      else None)"
| "presentedKey object (StackMapState STATE_MAP_KEY sz key readCount m # rest) =
     Some (object, StackMapState STATE_MAP_KEY sz key readCount m # rest)"
| "presentedKey object (StackMapState STATE_MAP_VALUE sz key readCount m # rest) =
     (if readCount + 1 = sz then presentedKey (JObject (recordSet m (keyOf key) object)) rest
      else None)"

text \<open>
  The values of the round trip: nil, booleans, integers, 64-bit floats (a 32-bit float is
  a decode-only format), strings, binaries, arrays of such values, and maps of such
  values whose keys are strings (the properties of a JavaScript object), pairwise
  different and none of them \<open>__proto__\<close>. A decoder has wide limits when its limits
  admit every length a header can declare.
\<close>

fun isString :: "'b jsval \<Rightarrow> bool" where
  "isString (JString str) = True"
| "isString v = False"

fun supported :: "byte list jsval \<Rightarrow> bool" where
  "supported JNull = True"
| "supported JUndefined = False"
| "supported (JBoolean b) = True"
| "supported (JNumber n) = (case n of Integer i \<Rightarrow> True | Float32 w \<Rightarrow> False | Float64 w \<Rightarrow> True)"
| "supported (JString str) = True"
| "supported (JUint8Array bs) = True"
| "supported (JArray xs) = list_all supported xs"
| "supported (JObject kvs) =
     (list_all (\<lambda>kv. isString (fst kv) \<and> fst kv \<noteq> JString ''__proto__'' \<and> supported (snd kv)) kvs \<and>
      distinct (map fst kvs))"
| "supported (JOther h) = False"

definition wideLimits :: "decoderParams \<Rightarrow> bool" where
  "wideLimits dp =
     (UINT32_MAX \<le> bufMaxStrLength dp \<and> UINT32_MAX \<le> bufMaxBinLength dp \<and>
      UINT32_MAX \<le> bufMaxArrayLength dp \<and> UINT32_MAX \<le> bufMaxMapLength dp)"

section \<open>Specifications of actions\<close>

text \<open>
  \<open>guar P E V A\<close>: run from a state that satisfies \<open>P\<close>, the action \<open>A\<close> either throws
  an error \<open>e\<close> and leaves a state with \<open>E e\<close>, or returns a value with \<open>V\<close> and leaves a
  state with \<open>P\<close>.
\<close>

definition guar :: "('s \<Rightarrow> bool) \<Rightarrow> (error \<Rightarrow> 's \<Rightarrow> bool) \<Rightarrow> ('a \<Rightarrow> bool) \<Rightarrow> ('a, 's) action \<Rightarrow> bool" where
  "guar P E V A =
     (\<forall>s r s'. P s \<longrightarrow> A s = (r, s') \<longrightarrow>
        (case r of Inl e \<Rightarrow> E e s' | Inr a \<Rightarrow> P s' \<and> V a))"

definition always :: "'a \<Rightarrow> bool" where
  "always a = True"

definition whenSome :: "('a \<Rightarrow> bool) \<Rightarrow> 'a option \<Rightarrow> bool" where
  "whenSome V r = (case r of None \<Rightarrow> True | Some v \<Rightarrow> V v)"

text \<open>
  \<open>simulates R V a a'\<close>: from states related by \<open>R\<close>, whenever \<open>a'\<close> returns, \<open>a\<close>
  returns too, and \<open>V\<close> relates the two values and the two states they leave.
\<close>

definition simulates ::
  "('s \<Rightarrow> 't \<Rightarrow> bool) \<Rightarrow> ('a \<Rightarrow> 's \<Rightarrow> 'c \<Rightarrow> 't \<Rightarrow> bool) \<Rightarrow> ('a, 's) action \<Rightarrow> ('c, 't) action \<Rightarrow> bool" where
  "simulates R V a a' =
     (\<forall>s t y t'. R s t \<longrightarrow> a' t = (Inr y, t') \<longrightarrow> (\<exists>x s'. a s = (Inr x, s') \<and> V x s' y t'))"

text \<open>
  A stream decoder on chunks and a buffer-resident decoder are related when the chunks
  still to be pulled, none of them empty, are the buffer from the cursor on, the
  scratch buffer has at least half the length of the buffer, the head bytes agree, and
  the stacks have the same shape.
\<close>

definition related :: "byte list list decoder \<Rightarrow> bufDecoder \<Rightarrow> bool" where
  "related s b =
     (concat (source s) = drop (bufPos b) (bufBytes b) \<and> [] \<notin> set (source s) \<and>
      bufPos b \<le> length (bufBytes b) \<and> length (bufBytes b) \<le> 2 * length (bytes s) \<and>
      headByte s = bufHeadByte b \<and>
      map (map_frame snd) (stack s) = map (map_frame length) (bufStack b) \<and>
      list_all keysReady (stack s))"

definition sameResult ::
  "('a \<Rightarrow> 'c \<Rightarrow> bool) \<Rightarrow> 'a \<Rightarrow> byte list list decoder \<Rightarrow> 'c \<Rightarrow> bufDecoder \<Rightarrow> bool" where
  "sameResult rel x s y b = (related s b \<and> rel x y)"

definition bytesRead :: "nat \<Rightarrow> view \<Rightarrow> byte list list decoder \<Rightarrow> byte list \<Rightarrow> bufDecoder \<Rightarrow> bool" where
  "bytesRead n v s bs b =
     (related s b \<and> length bs = n \<and> v = (length (retired s), n) \<and> take n (bytes s) = bs \<and>
      n \<le> length (bytes s))"

text \<open>
  A buffer-resident decoder with head byte \<open>hb\<close> that has read \<open>pre\<close> and has \<open>xs\<close>
  before it; and what the loop returns once the value \<open>v\<close> is completed there on the
  stack \<open>stk\<close>.
\<close>

definition atHead :: "int \<Rightarrow> byte list \<Rightarrow> byte list \<Rightarrow> byte list frame list \<Rightarrow> bufDecoder" where
  "atHead hb pre xs stk = \<lparr>bufHeadByte = hb, bufBytes = pre @ xs, bufPos = length pre, bufStack = stk\<rparr>"

definition finish ::
  "decoderParams \<Rightarrow> byte list jsval \<Rightarrow> byte list \<Rightarrow> byte list \<Rightarrow> byte list frame list \<Rightarrow>
     ((error + byte list jsval) \<times> bufDecoder) option" where
  "finish dp v pre rest stk =
     (case propagate v stk of
        (Inl e, stk') \<Rightarrow> Some (Inl e, atHead HEAD_BYTE_REQUIRED pre rest stk')
      | (Inr None, stk') \<Rightarrow> bufDoDecodeSync dp (atHead HEAD_BYTE_REQUIRED pre rest stk')
      | (Inr (Some r), stk') \<Rightarrow> Some (Inr r, atHead HEAD_BYTE_REQUIRED pre rest stk'))"

section \<open>Properties\<close>

lemmas action_defs = bnd_def ret_def throw_def

lemmas read_defs = readBytes_def ensureBufferSizeToWrite_def resizeBuffer_def callRead_def
  getUint_def getInt_def beNat_def toSigned_def readU8_def readI8_def readU16_def readI16_def
  readU32_def readI32_def readU64_def readI64_def readF32_def readF64_def readHeadByte_def
  complete_def HEAD_BYTE_REQUIRED_def

lemmas decode_defs = decodeStep_def decodeHead_def mapOfSize_def arrayOfSize_def strOfLength_def
  binOfSize_def extOfSize_def uintOf_def intOf_def floatOf_def pushMapState_def
  pushArrayState_def decodeUtf8String_def decodeBinary_def decodeExtension_def stateIsMapKey_def
  propagateStack_def viewBytes_def buffers_def arraySet_def keyOf_def isValidMapKeyType_def

lemmas run_defs = action_defs read_defs decode_defs readBytesLoop.simps defaultParams_def
  newStreamDecoder_def DEFAULT_INITIAL_BUFFER_SIZE_def UINT32_MAX_def benchmarkRead_def
  monitor_def Let_def

subsection \<open>Sequencing\<close>

lemma guarI:
  assumes "\<And>s e s'. P s \<Longrightarrow> A s = (Inl e, s') \<Longrightarrow> E e s'"
    and "\<And>s a s'. P s \<Longrightarrow> A s = (Inr a, s') \<Longrightarrow> P s' \<and> V a"
  shows "guar P E V A"
  unfolding guar_def using assms by (auto split: sum.splits)

lemma guarD_Inl: "guar P E V A \<Longrightarrow> P s \<Longrightarrow> A s = (Inl e, s') \<Longrightarrow> E e s'"
  unfolding guar_def by fastforce

lemma guarD_Inr: "guar P E V A \<Longrightarrow> P s \<Longrightarrow> A s = (Inr a, s') \<Longrightarrow> P s' \<and> V a"
  unfolding guar_def by fastforce

lemma bnd_Inl: "m s = (Inl e, s') \<Longrightarrow> bnd m f s = (Inl e, s')"
  by (simp add: bnd_def)

lemma bnd_Inr: "m s = (Inr a, s') \<Longrightarrow> bnd m f s = f a s'"
  by (simp add: bnd_def)

lemma bnd_cases:
  assumes "bnd m f s = (r, s'')"
  obtains (fail) e where "m s = (Inl e, s'')" "r = Inl e"
        | (ok) a s' where "m s = (Inr a, s')" "f a s' = (r, s'')"
  using assms unfolding bnd_def by (auto split: prod.splits sum.splits)

lemma guar_bnd:
  assumes m: "guar P E V1 m" and f: "\<And>a. V1 a \<Longrightarrow> guar P E V (f a)"
  shows "guar P E V (bnd m f)"
proof (rule guarI)
  fix s e s' assume P: "P s" and b: "bnd m f s = (Inl e, s')"
  from b show "E e s'"
  proof (cases rule: bnd_cases)
    case (fail e') with m P show ?thesis by (auto dest: guarD_Inl)
  next
    case (ok a s1)
    with m P have "P s1 \<and> V1 a" by (auto dest: guarD_Inr)
    with f ok show ?thesis by (auto dest: guarD_Inl)
  qed
next
  fix s a s' assume P: "P s" and b: "bnd m f s = (Inr a, s')"
  from b show "P s' \<and> V a"
  proof (cases rule: bnd_cases)
    case (fail e') then show ?thesis by simp
  next
    case (ok a1 s1)
    with m P have "P s1 \<and> V1 a1" by (auto dest: guarD_Inr)
    with f ok show ?thesis by (auto dest: guarD_Inr)
  qed
qed

lemma guar_ret: "V a \<Longrightarrow> guar P E V (ret a)"
  by (rule guarI) (auto simp: ret_def)

lemma guar_throw: "(\<And>s. P s \<Longrightarrow> E e s) \<Longrightarrow> guar P E V (throw e)"
  by (rule guarI) (auto simp: throw_def)

lemma guar_weaken: "guar P E V1 A \<Longrightarrow> (\<And>a. V1 a \<Longrightarrow> V a) \<Longrightarrow> guar P E V A"
  unfolding guar_def by (auto split: sum.splits) 


lemma always_simp [simp]: "always a"
  by (simp add: always_def)

lemma whenSome_simps [simp]: "whenSome V None" "whenSome V (Some v) = V v"
  by (simp_all add: whenSome_def)

lemma guar_always: "guar P E V A \<Longrightarrow> guar P E always A"
  by (erule guar_weaken) simp

lemma guar_bnd_always:
  assumes "guar P E always m" and "\<And>a. guar P E V (f a)"
  shows "guar P E V (bnd m f)"
  using assms by (intro guar_bnd [where ?V1.0 = always])

lemma guar_getUint:
  assumes thr: "\<And>s e. P s \<Longrightarrow> E e s"
  shows "guar P E always (getUint n)"
  by (rule guarI) (auto simp: getUint_def thr split: if_splits)

lemma guar_getInt:
  assumes thr: "\<And>s e. P s \<Longrightarrow> E e s"
  shows "guar P E always (getInt n)"
  unfolding getInt_def
  by (intro guar_bnd_always guar_ret guar_getUint thr) simp_all

lemma guar_complete:
  assumes hb: "\<And>s h. P (s\<lparr>headByte := h\<rparr>) = P s"
  shows "guar P E always complete"
  by (rule guarI) (auto simp: complete_def hb)

lemma guar_if: "(c \<Longrightarrow> guar P E V A) \<Longrightarrow> (\<not> c \<Longrightarrow> guar P E V B) \<Longrightarrow> guar P E V (if c then A else B)"
  by simp

lemma guar_reads:
  assumes rb: "\<And>n. guar P E always (readBytes p n)"
    and thr: "\<And>s e. P s \<Longrightarrow> E e s"
  shows "guar P E always (readU8 p)" "guar P E always (readU16 p)" "guar P E always (readU32 p)"
    "guar P E always (readU64 p)" "guar P E always (readI8 p)" "guar P E always (readI16 p)"
    "guar P E always (readI32 p)" "guar P E always (readI64 p)"
    "guar P E always (readF32 p)" "guar P E always (readF64 p)"
  unfolding readU8_def readU16_def readU32_def readU64_def readI8_def readI16_def readI32_def
    readI64_def readF32_def readF64_def
  by (rule guar_bnd_always rb guar_getUint guar_getInt guar_ret thr always_simp | assumption)+

lemma guar_readHeadByte:
  assumes rb: "\<And>n. guar P E always (readBytes p n)"
    and thr: "\<And>s e. P s \<Longrightarrow> E e s"
    and hb: "\<And>s h. P (s\<lparr>headByte := h\<rparr>) = P s"
  shows "guar P E always (readHeadByte p)"
proof (rule guarI)
  fix s e s' assume "P s" "readHeadByte p s = (Inl e, s')"
  then show "E e s'"
    using guarD_Inl [OF guar_reads(1) [OF rb thr], of s e s'] thr [of s e]
    by (auto simp: readHeadByte_def split: if_splits elim!: bnd_cases)
next
  fix s a s' assume "P s" "readHeadByte p s = (Inr a, s')"
  then show "P s' \<and> always a"
    using guarD_Inr [OF guar_reads(1) [OF rb thr], of s]
    by (auto simp: readHeadByte_def hb split: if_splits elim!: bnd_cases)
qed

lemma guar_decodeUtf8String:
  assumes rb: "\<And>n. guar P E always (readBytes p n)"
    and thr: "\<And>s e. P s \<Longrightarrow> E e s"
  shows "guar P E always (decodeUtf8String p n)"
proof -
  have "guar P E always (\<lambda>s. let bs = viewBytes s v in
        (case (if stateIsMapKey s then keyDecoder p else None) of
           Some (canBeCached, keyDecode) \<Rightarrow>
             if canBeCached n then (Inr (keyDecode bs), s)
             else if n > TEXT_DECODER_THRESHOLD p then (Inr (utf8DecodeTD p bs), s)
             else (Inr (utf8DecodeJs p bs), s)
         | None \<Rightarrow>
             if n > TEXT_DECODER_THRESHOLD p then (Inr (utf8DecodeTD p bs), s)
             else (Inr (utf8DecodeJs p bs), s)))" for v
    by (rule guarI) (auto simp: Let_def split: option.splits if_splits prod.splits)
  then show ?thesis
    unfolding decodeUtf8String_def
    by (intro guar_if guar_throw guar_bnd_always rb thr) simp_all
qed

lemma guar_decodeBinary:
  assumes rb: "\<And>n. guar P E always (readBytes p n)"
    and thr: "\<And>s e. P s \<Longrightarrow> E e s"
  shows "guar P E always (decodeBinary p n)"
  unfolding decodeBinary_def
  by (intro guar_if guar_throw rb thr) simp_all

lemma guar_decodeExtension:
  assumes rb: "\<And>n. guar P E always (readBytes p n)"
    and thr: "\<And>s e. P s \<Longrightarrow> E e s"
    and exte: "\<And>v bs t e s. P s \<Longrightarrow> extensionCodec p v bs t = Inl e \<Longrightarrow> E e s"
    and extv: "\<And>v bs t x. extensionCodec p v bs t = Inr x \<Longrightarrow> V x"
  shows "guar P E V (decodeExtension p n)"
proof -
  have "guar P E V (\<lambda>s. (extensionCodec p data (viewBytes s data) extType, s))" for data extType
    by (rule guarI) (auto intro: exte extv)
  then show ?thesis
    unfolding decodeExtension_def
    by (intro guar_if guar_throw guar_bnd_always guar_decodeBinary guar_reads rb thr) simp_all
qed

lemma guar_decodeHead:
  assumes rb: "\<And>n. guar P E always (readBytes p n)"
    and thr: "\<And>s e. P s \<Longrightarrow> E e s"
    and hb: "\<And>s h. P (s\<lparr>headByte := h\<rparr>) = P s"
    and pm: "\<And>n. n \<noteq> 0 \<Longrightarrow> guar P E always (pushMapState p n)"
    and pa: "\<And>n. n \<noteq> 0 \<Longrightarrow> guar P E always (pushArrayState p n)"
    and exte: "\<And>v bs t e s. P s \<Longrightarrow> extensionCodec p v bs t = Inl e \<Longrightarrow> E e s"
    and extv: "\<And>v bs t x. extensionCodec p v bs t = Inr x \<Longrightarrow> V x"
    and scalars: "V JNull" "\<And>b. V (JBoolean b)" "\<And>n. V (JNumber n)" "\<And>str. V (JString str)"
      "\<And>v. V (JUint8Array v)" "V (JArray [])" "V (JObject [])"
  shows "guar P E (whenSome V) (decodeHead p hb)"
proof -
  note rds = guar_reads [OF rb thr]
  have m: "guar P E (whenSome V) (mapOfSize p n)" for n
    unfolding mapOfSize_def
    by (intro guar_if guar_bnd_always guar_ret pm guar_complete hb) (simp_all add: scalars)
  have a: "guar P E (whenSome V) (arrayOfSize p n)" for n
    unfolding arrayOfSize_def
    by (intro guar_if guar_bnd_always guar_ret pa guar_complete hb) (simp_all add: scalars)
  have s: "guar P E (whenSome V) (strOfLength p n)" for n
    unfolding strOfLength_def
    by (intro guar_bnd_always guar_ret guar_decodeUtf8String rb thr) (simp_all add: scalars)
  have b: "guar P E (whenSome V) (binOfSize p n)" for n
    unfolding binOfSize_def
    by (intro guar_bnd_always guar_ret guar_decodeBinary rb thr) (simp_all add: scalars)
  have x: "guar P E (whenSome V) (extOfSize p n)" for n
    unfolding extOfSize_def
    by (rule guar_bnd [where ?V1.0 = V], rule guar_decodeExtension [OF rb thr exte extv])
       (auto intro: guar_ret)
  have u: "guar P E always rd \<Longrightarrow> guar P E (whenSome V) (uintOf rd)" for rd
    unfolding uintOf_def by (intro guar_bnd_always guar_ret) (simp_all add: scalars)
  have i: "guar P E always rd \<Longrightarrow> guar P E (whenSome V) (intOf rd)" for rd
    unfolding intOf_def by (intro guar_bnd_always guar_ret) (simp_all add: scalars)
  have f: "guar P E always rd \<Longrightarrow> guar P E (whenSome V) (floatOf rd)" for rd
    unfolding floatOf_def by (intro guar_bnd_always guar_ret) (simp_all add: scalars)
  show ?thesis
    unfolding decodeHead_def
    by (intro guar_if guar_bnd_always guar_ret guar_throw m a s b x u i f rds thr)
       (simp_all add: scalars)
qed


lemma guar_decodeStep:
  assumes rb: "\<And>n. guar P E always (readBytes p n)"
    and thr: "\<And>s e. P s \<Longrightarrow> E e s"
    and hb: "\<And>s h. P (s\<lparr>headByte := h\<rparr>) = P s"
    and pm: "\<And>n. n \<noteq> 0 \<Longrightarrow> guar P E always (pushMapState p n)"
    and pa: "\<And>n. n \<noteq> 0 \<Longrightarrow> guar P E always (pushArrayState p n)"
    and pr: "\<And>obj. V obj \<Longrightarrow> guar P E (whenSome V) (propagateStack obj)"
    and exte: "\<And>v bs t e s. P s \<Longrightarrow> extensionCodec p v bs t = Inl e \<Longrightarrow> E e s"
    and extv: "\<And>v bs t x. extensionCodec p v bs t = Inr x \<Longrightarrow> V x"
    and scalars: "V JNull" "\<And>b. V (JBoolean b)" "\<And>n. V (JNumber n)" "\<And>str. V (JString str)"
      "\<And>v. V (JUint8Array v)" "V (JArray [])" "V (JObject [])"
  shows "guar P E (whenSome V) (decodeStep p)"
proof -
  have k: "guar P E (whenSome V)
     (case r of None \<Rightarrow> ret None | Some object \<Rightarrow> bnd complete (\<lambda>_. propagateStack object))"
    if "whenSome V r" for r
    using that
    by (cases r) (auto intro!: guar_ret guar_bnd_always guar_complete hb pr)
  have h: "guar P E (whenSome V) (decodeHead p b)" for b
    by (rule guar_decodeHead) (rule rb thr hb pm pa exte extv scalars | assumption)+
  have r: "guar P E always (readHeadByte p)"
    by (rule guar_readHeadByte) (fact rb thr hb)+
  show ?thesis
    unfolding decodeStep_def
    by (rule guar_bnd_always [OF r], rule guar_bnd [OF h], rule k)
qed

lemma guar_doDecodeSync:
  assumes step: "guar P E (whenSome V) (decodeStep p)"
    and run: "doDecodeSync p s = Some (r, s')" and P: "P s"
  shows "case r of Inl e \<Rightarrow> E e s' | Inr v \<Rightarrow> P s' \<and> V v"
proof -
  have "guar P E (whenSome V) (decodeStep p) \<longrightarrow> P s \<longrightarrow>
        (case fst rs of Inl e \<Rightarrow> E e (snd rs) | Inr v \<Rightarrow> P (snd rs) \<and> V v)"
    if "doDecodeSync p s = Some rs" for rs
    using that
  proof (induction p s rs rule: doDecodeSync.raw_induct [rotated 1, consumes 1])
    case (1 loop p s rs)
    show ?case
    proof (intro impI)
      assume step: "guar P E (whenSome V) (decodeStep p)" and Ps: "P s"
      obtain r1 s1 where st: "decodeStep p s = (r1, s1)" by (cases "decodeStep p s")
      show "case fst rs of Inl e \<Rightarrow> E e (snd rs) | Inr v \<Rightarrow> P (snd rs) \<and> V v"
      proof (cases r1)
        case (Inl e)
        with st have st': "decodeStep p s = (Inl e, s1)" by simp
        with 1(2) have "rs = (Inl e, s1)" by simp
        moreover have "E e s1" by (rule guarD_Inl [OF step Ps st'])
        ultimately show ?thesis by simp
      next
        case (Inr o1)
        from st Inr have st': "decodeStep p s = (Inr o1, s1)" by simp
        have Q: "P s1 \<and> whenSome V o1" by (rule guarD_Inr [OF step Ps st'])
        show ?thesis
        proof (cases o1)
          case None
          with 1(2) st' have "loop p s1 = Some rs" by simp
          from 1(1) [OF this] Q step show ?thesis by simp
        next
          case (Some v)
          with 1(2) st' have "rs = (Inr v, s1)" by simp
          with Q Some show ?thesis by simp
        qed
      qed
    qed
  qed
  from this [OF run] P step show ?thesis by (cases r) simp_all
qed

subsection \<open>Exhaustion of the pull source\<close>

lemma callRead_monitor:
  assumes "read p = Callback (monitor f)" and "callRead p pos len s = (r, s')"
  shows "\<exists>c. r = Inr c \<and> reported s' = (reported s \<or> c \<le> 0)"
  using assms
  by (auto simp: callRead_def monitor_def reported_def Let_def split: prod.splits)

lemma exh_readBytesLoop:
  "read p = Callback (monitor f) \<Longrightarrow> \<not> reported s \<Longrightarrow> readBytesLoop p len pos s = (r, s') \<Longrightarrow>
     (case r of Inl e \<Rightarrow> reported s' \<longrightarrow> e = MORE_DATA | Inr u \<Rightarrow> \<not> reported s')"
proof (induction p len pos s rule: readBytesLoop.induct)
  case (1 p len pos s)
  note rd = 1(2)
  show ?case
  proof (cases "pos < len")
    case False
    with 1(3,4) show ?thesis by (auto simp: readBytesLoop.simps [of p len pos s])
  next
    case True
    obtain r1 s1 where cr: "callRead p pos len s = (r1, s1)" by (cases "callRead p pos len s")
    from callRead_monitor [OF rd cr] obtain c where
      c: "r1 = Inr c" "reported s1 = (reported s \<or> c \<le> 0)" by blast
    show ?thesis
    proof (cases "c \<le> 0")
      case True
      with \<open>pos < len\<close> cr c 1(4) show ?thesis by (auto simp: readBytesLoop.simps [of p len pos s])
    next
      case False
      with \<open>pos < len\<close> cr c 1(4) have lp: "readBytesLoop p len (pos + nat c) s1 = (r, s')"
        by (simp add: readBytesLoop.simps [of p len pos s])
      have nr: "\<not> reported s1" using c False 1(3) by simp
      from cr c have cr': "(Inr c, s1) = callRead p pos len s" by simp
      show ?thesis
        by (rule 1(1) [OF \<open>pos < len\<close> cr' refl False rd nr lp])
    qed
  qed
qed


lemma exh_readBytes:
  assumes rd: "read p = Callback (monitor f)"
  shows "guar (\<lambda>s. \<not> reported s) (\<lambda>e s'. reported s' \<longrightarrow> e = MORE_DATA) always (readBytes p n)"
proof (rule guarI)
  fix s e s' assume nr: "\<not> reported s" and rb: "readBytes p n s = (Inl e, s')"
  have nr': "\<not> reported (ensureBufferSizeToWrite n s)"
    using nr by (simp add: ensureBufferSizeToWrite_def resizeBuffer_def reported_def)
  from rb have "readBytesLoop p n 0 (ensureBufferSizeToWrite n s) = (Inl e, s')"
    by (auto simp: readBytes_def split: prod.splits sum.splits)
  from exh_readBytesLoop [OF rd nr' this] show "reported s' \<longrightarrow> e = MORE_DATA" by simp
next
  fix s a s' assume nr: "\<not> reported s" and rb: "readBytes p n s = (Inr a, s')"
  have nr': "\<not> reported (ensureBufferSizeToWrite n s)"
    using nr by (simp add: ensureBufferSizeToWrite_def resizeBuffer_def reported_def)
  from rb have "readBytesLoop p n 0 (ensureBufferSizeToWrite n s) = (Inr (), s')"
    by (auto simp: readBytes_def split: prod.splits sum.splits)
  from exh_readBytesLoop [OF rd nr' this] show "\<not> reported s' \<and> always a" by simp
qed

lemma exh_decodeStep:
  assumes rd: "read p = Callback (monitor f)"
  shows "guar (\<lambda>s. \<not> reported s) (\<lambda>e s'. reported s' \<longrightarrow> e = MORE_DATA) (whenSome always) (decodeStep p)"
proof (rule guar_decodeStep)
  show "guar (\<lambda>s. \<not> reported s) (\<lambda>e s'. reported s' \<longrightarrow> e = MORE_DATA) always (readBytes p n)" for n
    by (rule exh_readBytes [OF rd])
  show "guar (\<lambda>s. \<not> reported s) (\<lambda>e s'. reported s' \<longrightarrow> e = MORE_DATA) always (pushMapState p n)" for n
    by (rule guarI) (auto simp: pushMapState_def reported_def split: if_splits)
  show "guar (\<lambda>s. \<not> reported s) (\<lambda>e s'. reported s' \<longrightarrow> e = MORE_DATA) always (pushArrayState p n)" for n
    by (rule guarI) (auto simp: pushArrayState_def reported_def split: if_splits)
  show "guar (\<lambda>s. \<not> reported s) (\<lambda>e s'. reported s' \<longrightarrow> e = MORE_DATA) (whenSome always) (propagateStack obj)" for obj
    by (rule guarI) (auto simp: propagateStack_def reported_def whenSome_def split: prod.splits option.splits)
  show "\<And>s h. (\<not> reported (s\<lparr>headByte := h\<rparr>)) = (\<not> reported s)"
    by (simp add: reported_def)
qed simp_all


lemma doDecodeSync_fails:
  "decodeStep p s = (Inl e, s') \<Longrightarrow> doDecodeSync p s = Some (Inl e, s')"
  by (subst doDecodeSync.simps) simp

lemma doDecodeSync_continues:
  "decodeStep p s = (Inr None, s') \<Longrightarrow> doDecodeSync p s = doDecodeSync p s'"
  by (subst doDecodeSync.simps) simp

lemma doDecodeSync_returns:
  "decodeStep p s = (Inr (Some object), s') \<Longrightarrow> doDecodeSync p s = Some (Inr object, s')"
  by (subst doDecodeSync.simps) simp

text \<open>
  Claim C9. When the pull source reports exhaustion, by returning a number that is not
  positive while a read still lacks bytes, the decode fails with \<open>MORE_DATA\<close>, the
  insufficient-data error, which is not a \<open>DecodeError\<close>. The callback is observed by
  \<open>monitor\<close>: its flag is up after a turn of the loop exactly when it has reported
  exhaustion in that turn. The turn in which that happens ends the decode with
  \<open>MORE_DATA\<close>, and every decode that ends with the flag up has ended with \<open>MORE_DATA\<close>.
\<close>

theorem exhaustion_is_insufficient_data:
  assumes rd: "read p = Callback (monitor f)" and nr: "\<not> reported s"
  shows "(\<forall>r s'. decodeStep p s = (r, s') \<and> reported s' \<longrightarrow>
            r = Inl MORE_DATA \<and> doDecodeSync p s = Some (Inl MORE_DATA, s'))
       \<and> (\<forall>r s'. doDecodeSync p s = Some (r, s') \<and> reported s' \<longrightarrow> r = Inl MORE_DATA)
       \<and> \<not> isDecodeError MORE_DATA"
proof (intro conjI allI impI)
  fix r s' assume a: "decodeStep p s = (r, s') \<and> reported s'"
  show "r = Inl MORE_DATA"
  proof (cases r)
    case (Inl e)
    with a guarD_Inl [OF exh_decodeStep [OF rd] nr, of e s'] show ?thesis by simp
  next
    case (Inr v)
    with a guarD_Inr [OF exh_decodeStep [OF rd] nr, of v s'] show ?thesis by simp
  qed
  with a show "doDecodeSync p s = Some (Inl MORE_DATA, s')"
    by (simp add: doDecodeSync_fails)
next
  fix r s' assume a: "doDecodeSync p s = Some (r, s') \<and> reported s'"
  from guar_doDecodeSync [OF exh_decodeStep [OF rd], of s r s'] a nr
  show "r = Inl MORE_DATA" by (cases r) simp_all
next
  show "\<not> isDecodeError MORE_DATA" by (simp add: MORE_DATA_def)
qed

text \<open>
  A witness: the benchmark's callback holds a str 16 header and one byte of its length.
\<close>

theorem exhaustion_is_insufficient_data_witness:
  "\<exists>s'. doDecodeSync (defaultParams (Callback (monitor (benchmarkRead [0xda, 0x00]))))
          (newStreamDecoder (0, False)) = Some (Inl MORE_DATA, s') \<and> reported s'"
proof -
  let ?p = "defaultParams (Callback (monitor (benchmarkRead [0xda, 0x00])))"
  let ?s = "newStreamDecoder (0::nat, False)"
  let ?s' = "\<lparr>headByte = 218, bytes = 0 # replicate 2047 0, retired = [],
               stack = [], source = (Suc (Suc 0), True)\<rparr>"
  have rd: "read ?p = Callback (monitor (benchmarkRead [0xda, 0x00]))"
    by (simp add: defaultParams_def)
  have nr: "\<not> reported ?s"
    by (simp add: reported_def newStreamDecoder_def)
  have st: "decodeStep ?p ?s = (Inl MORE_DATA, ?s')"
    by (simp add: run_defs)
  have rp: "reported ?s'"
    by (simp add: reported_def)
  from exhaustion_is_insufficient_data [OF rd nr] st rp
  have "doDecodeSync ?p ?s = Some (Inl MORE_DATA, ?s')" by blast
  with rp show ?thesis by blast
qed

subsection \<open>The scratch buffer\<close>

lemma callRead_frame:
  assumes "callRead p pos len s = (r, s')"
  shows "retired s' = retired s \<and> length (bytes s') = length (bytes s) \<and> stack s' = stack s
         \<and> headByte s' = headByte s"
  using assms
  by (auto simp: callRead_def Let_def split: reader.splits prod.splits)

lemma readBytesLoop_frame:
  "readBytesLoop p len pos s = (r, s') \<Longrightarrow>
     retired s' = retired s \<and> length (bytes s') = length (bytes s) \<and> stack s' = stack s
     \<and> headByte s' = headByte s"
proof (induction p len pos s rule: readBytesLoop.induct)
  case (1 p len pos s)
  show ?case
  proof (cases "pos < len")
    case False
    with 1(2) show ?thesis by (auto simp: readBytesLoop.simps [of p len pos s])
  next
    case True
    obtain r1 s1 where cr: "callRead p pos len s = (r1, s1)" by (cases "callRead p pos len s")
    note fr = callRead_frame [OF cr]
    show ?thesis
    proof (cases r1)
      case (Inl e)
      with True cr 1(2) fr show ?thesis by (auto simp: readBytesLoop.simps [of p len pos s])
    next
      case (Inr c)
      show ?thesis
      proof (cases "c \<le> 0")
        case True
        with \<open>pos < len\<close> cr Inr 1(2) fr show ?thesis
          by (auto simp: readBytesLoop.simps [of p len pos s])
      next
        case False
        with \<open>pos < len\<close> cr Inr 1(2)
        have lp: "readBytesLoop p len (pos + nat c) s1 = (r, s')"
          by (simp add: readBytesLoop.simps [of p len pos s])
        from cr Inr have cr': "(Inr c, s1) = callRead p pos len s" by simp
        from 1(1) [OF \<open>pos < len\<close> cr' refl False lp] fr show ?thesis by simp
      qed
    qed
  qed
qed

lemma readBytes_view:
  assumes "readBytes p n s = (Inr v, s')"
  shows "v = (length (retired s'), min n (length (bytes s')))" "viewBytes s' v = take n (bytes s')"
proof -
  from assms show v: "v = (length (retired s'), min n (length (bytes s')))"
    by (auto simp: readBytes_def split: prod.splits sum.splits)
  show "viewBytes s' v = take n (bytes s')"
    by (simp add: v viewBytes_def buffers_def nth_append min_def)
qed

lemma readBytes_same_buffer:
  assumes n: "n \<le> length (bytes s)" and rb: "readBytes p n s = (r, s')"
  shows "retired s' = retired s" "length (bytes s') = length (bytes s)"
proof -
  from n have "ensureBufferSizeToWrite n s = s" by (simp add: ensureBufferSizeToWrite_def)
  with rb obtain r0 where "readBytesLoop p n 0 s = (r0, s')"
    by (auto simp: readBytes_def split: prod.splits sum.splits)
  from readBytesLoop_frame [OF this]
  show "retired s' = retired s" "length (bytes s') = length (bytes s)" by simp_all
qed

lemma readBytes_fresh_buffer:
  assumes n: "length (bytes s) < n" and rb: "readBytes p n s = (r, s')"
  shows "retired s' = retired s @ [bytes s]" "length (bytes s') = 2 * length (bytes s)"
proof -
  let ?s = "resizeBuffer (length (bytes s) * 2) s"
  from n have "ensureBufferSizeToWrite n s = ?s" by (simp add: ensureBufferSizeToWrite_def)
  with rb obtain r0 where "readBytesLoop p n 0 ?s = (r0, s')"
    by (auto simp: readBytes_def split: prod.splits sum.splits)
  from readBytesLoop_frame [OF this]
  show "retired s' = retired s @ [bytes s]" "length (bytes s') = 2 * length (bytes s)"
    by (simp_all add: resizeBuffer_def)
qed

lemma capacity_never_shrinks:
  assumes "readBytes p n s = (r, s')"
  shows "length (bytes s) \<le> length (bytes s')"
proof (cases "n \<le> length (bytes s)")
  case True
  from readBytes_same_buffer(2) [OF True assms] show ?thesis by simp
next
  case False
  then have "length (bytes s) < n" by simp
  from readBytes_fresh_buffer(2) [OF this assms] show ?thesis by simp
qed

lemma capacity_after_read:
  assumes "readBytes p n s = (r, s')"
  shows "length (bytes s') = (if length (bytes s) < n then 2 * length (bytes s) else length (bytes s))"
proof (cases "n \<le> length (bytes s)")
  case True
  from readBytes_same_buffer(2) [OF True assms] True show ?thesis by simp
next
  case False
  then have "length (bytes s) < n" by simp
  from readBytes_fresh_buffer(2) [OF this assms] this show ?thesis by simp
qed

text \<open>
  Claim C6 says that the read-N-bytes primitive first makes the capacity of the scratch
  buffer at least N, for every N, and then pulls until it has N bytes. The buffer never
  shrinks (\<open>capacity_never_shrinks\<close>), but \<open>ensureBufferSizeToWrite\<close> doubles it once
  (\<open>capacity_after_read\<close>), which is not enough when N is more than twice the capacity.
  Here a new decoder (capacity 2048) is given a bin 16 of 5000 bytes by the benchmark's
  callback, which holds all of them: the buffer grows to 4096, the callback fills it,
  the next view is empty, the callback returns 0, and the decode fails with
  \<open>MORE_DATA\<close> although 904 bytes are still to be had.
\<close>

theorem read_beyond_twice_the_capacity:
  "decodeStream
     (defaultParams (Callback (benchmarkRead ([0xc5, 0x13, 0x88] @ replicate 5000 0x41)))) 0 =
   Some (Inl MORE_DATA,
         \<lparr>headByte = 197, bytes = replicate 4096 65,
          retired = [19 # 136 # replicate 2046 0], stack = [], source = 4099\<rparr>)"
proof -
  have "decodeStep
     (defaultParams (Callback (benchmarkRead ([0xc5, 0x13, 0x88] @ replicate 5000 0x41))))
     (newStreamDecoder 0) =
     (Inl MORE_DATA,
         \<lparr>headByte = 197, bytes = replicate 4096 65,
          retired = [19 # 136 # replicate 2046 0], stack = [], source = 4099\<rparr>)"
    by (simp add: run_defs)
  then show ?thesis
    by (simp add: decodeStream_def decode_def reinitializeState_def doDecodeSync_fails
        newStreamDecoder_def HEAD_BYTE_REQUIRED_def)
qed

text \<open>
  Claim C10, as amended. A decoded binary of length \<open>L\<close> is a view, at offset 0, of the
  ArrayBuffer that is the scratch buffer at that moment, and reads its first \<open>L\<close>
  bytes. A later read of \<open>n\<close> bytes that the buffer has room for stays in that
  ArrayBuffer, and the earlier view then reads, in its first \<open>min L n\<close> bytes, what that
  read returns. A later read that makes the buffer grow goes to a new ArrayBuffer and
  leaves what every earlier view reads as it was.
\<close>

theorem binary_is_a_view:
  "(decodeBinary p L s0 = (Inr v, s1) \<longrightarrow>
      v = (length (retired s1), min L (length (bytes s1))) \<and> viewBytes s1 v = take L (bytes s1))
   \<and> (fst v = length (retired s) \<and> n \<le> length (bytes s) \<and> readBytes p n s = (Inr v2, s') \<longrightarrow>
      fst v2 = fst v \<and>
      take (min (snd v) n) (viewBytes s' v) = take (min (snd v) n) (viewBytes s' v2))
   \<and> (fst v \<le> length (retired s) \<and> length (bytes s) < n \<and> readBytes p n s = (r, s') \<longrightarrow>
      viewBytes s' v = viewBytes s v \<and> (\<forall>v2. r = Inr v2 \<longrightarrow> fst v < fst v2))"
proof -
  have A: "v = (length (retired s1), min L (length (bytes s1))) \<and> viewBytes s1 v = take L (bytes s1)"
    if a: "decodeBinary p L s0 = (Inr v, s1)"
  proof -
    from a have rb: "readBytes p L s0 = (Inr v, s1)"
      by (auto simp: decodeBinary_def throw_def split: if_splits)
    from readBytes_view [OF rb] show ?thesis by simp
  qed
  have B: "fst v2 = fst v \<and>
      take (min (snd v) n) (viewBytes s' v) = take (min (snd v) n) (viewBytes s' v2)"
    if a: "fst v = length (retired s) \<and> n \<le> length (bytes s) \<and> readBytes p n s = (Inr v2, s')"
  proof -
    from a have rb: "readBytes p n s = (Inr v2, s')" and n: "n \<le> length (bytes s)" by simp_all
    note same = readBytes_same_buffer [OF n rb]
    note v2 = readBytes_view [OF rb]
    have "viewBytes s' v = take (snd v) (bytes s')"
      using a same by (simp add: viewBytes_def buffers_def nth_append)
    with v2(2) have "take (min (snd v) n) (viewBytes s' v) = take (min (snd v) n) (viewBytes s' v2)"
      by (simp add: min_def)
    with a same v2(1) show ?thesis by simp
  qed
  have C: "viewBytes s' v = viewBytes s v \<and> (\<forall>v2. r = Inr v2 \<longrightarrow> fst v < fst v2)"
    if a: "fst v \<le> length (retired s) \<and> length (bytes s) < n \<and> readBytes p n s = (r, s')"
  proof -
    from a have rb: "readBytes p n s = (r, s')" and n: "length (bytes s) < n" by simp_all
    note fresh = readBytes_fresh_buffer [OF n rb]
    from a fresh have "viewBytes s' v = viewBytes s v"
      by (simp add: viewBytes_def buffers_def nth_append)
    moreover have "fst v < fst v2" if "r = Inr v2" for v2
      using that rb readBytes_view(1) [of p n s v2 s'] fresh a by simp
    ultimately show ?thesis by blast
  qed
  from A B C show ?thesis by blast
qed

text \<open>
  A witness: a binary of one byte \<open>0x41\<close>; then a read of one byte, \<open>0x42\<close>, which the
  earlier view reads afterwards; or else a read of 3000 bytes, which makes the buffer
  grow.
\<close>

theorem binary_is_a_view_witness:
  "viewBytes \<lparr>headByte = - 1, bytes = 65 # replicate 2047 0, retired = [], stack = [],
              source = Suc 0\<rparr> (0, 1) = [0x41]
   \<and> viewBytes \<lparr>headByte = - 1, bytes = 66 # replicate 2047 0, retired = [], stack = [],
              source = Suc (Suc 0)\<rparr> (0, 1) = [0x42]
   \<and> viewBytes \<lparr>headByte = - 1, bytes = replicate 3000 66 @ replicate 1096 0,
              retired = [65 # replicate 2047 0], stack = [], source = 3001::nat\<rparr> (0, 1) = [0x41]"
proof -
  let ?p = "defaultParams (Callback (benchmarkRead (0x41 # replicate 3000 0x42)))"
  let ?s1 = "\<lparr>headByte = - 1, bytes = 65 # replicate 2047 0, retired = [], stack = [],
              source = Suc 0\<rparr>"
  let ?sB = "\<lparr>headByte = - 1, bytes = 66 # replicate 2047 0, retired = [], stack = [],
              source = Suc (Suc 0)\<rparr>"
  let ?sC = "\<lparr>headByte = - 1, bytes = replicate 3000 66 @ replicate 1096 0,
              retired = [65 # replicate 2047 0], stack = [], source = 3001::nat\<rparr>"
  have d: "decodeBinary ?p 1 (newStreamDecoder 0) = (Inr (0, 1), ?s1)"
    by (simp add: run_defs)
  have b: "readBytes ?p 1 ?s1 = (Inr (0, 1), ?sB)"
    by (simp add: run_defs)
  have c: "readBytes ?p 3000 ?s1 = (Inr (1, 3000), ?sC)"
    by (simp add: run_defs)
  have vb: "viewBytes ?sB (0, 1) = [0x42]"
    by (simp add: viewBytes_def buffers_def)
  from binary_is_a_view [of ?p 1 "newStreamDecoder 0" "(0, 1)" ?s1 ?s1 1 "(0, 1)" ?sB]
    d b vb
  have 1: "viewBytes ?s1 (0, 1) = [0x41]" "viewBytes ?sB (0, 1) = [0x42]"
    by simp_all
  from binary_is_a_view [of ?p 1 "newStreamDecoder 0" "(0, 1)" ?s1 ?s1 3000 "(1, 3000)" ?sC
      "Inr (1, 3000)"] c 1(1)
  have 2: "viewBytes ?sC (0, 1) = [0x41]"
    by simp
  from 1 2 show ?thesis by simp
qed

text \<open>
  Claim C10 as stated fails for a read that makes the buffer grow. After the binary
  \<open>0x41\<close>, a read of 3000 bytes \<open>0x42\<close> fills a new ArrayBuffer; the binary still reads
  \<open>0x41\<close>.
\<close>

theorem binary_survives_growth:
  "decodeBinary (defaultParams (Callback (benchmarkRead (0x41 # replicate 3000 0x42)))) 1
     (newStreamDecoder 0) =
     (Inr (0, 1),
      \<lparr>headByte = - 1, bytes = 65 # replicate 2047 0, retired = [], stack = [],
        source = Suc 0\<rparr>)
   \<and> readBytes (defaultParams (Callback (benchmarkRead (0x41 # replicate 3000 0x42)))) 3000
     \<lparr>headByte = - 1, bytes = 65 # replicate 2047 0, retired = [], stack = [], source = Suc 0\<rparr> =
     (Inr (1, 3000),
      \<lparr>headByte = - 1, bytes = replicate 3000 66 @ replicate 1096 0,
        retired = [65 # replicate 2047 0], stack = [], source = 3001::nat\<rparr>)
   \<and> viewBytes \<lparr>headByte = - 1, bytes = replicate 3000 66 @ replicate 1096 0,
        retired = [65 # replicate 2047 0], stack = [], source = 3001::nat\<rparr> (1, 3000) =
       replicate 3000 0x42
   \<and> viewBytes \<lparr>headByte = - 1, bytes = replicate 3000 66 @ replicate 1096 0,
        retired = [65 # replicate 2047 0], stack = [], source = 3001::nat\<rparr> (0, 1) = [0x41]"
  by (simp add: run_defs)

subsection \<open>The public operation\<close>

text \<open>
  Claim C8 says that \<open>decodeStream\<close> decodes one value asynchronously from a chunked
  source. \<open>decodeStream\<close> declares its source an \<open>AsyncIterable\<close> and its result a
  promise, and hands the source to the decoder as the \<open>read\<close> callback. The first read
  calls it, which throws a TypeError, whatever the chunks hold: no value is decoded, and
  nothing waits for the source.
\<close>

theorem decodeStream_of_an_async_iterable:
  "decodeStream (p\<lparr>read := AsyncIterable chunks\<rparr>) src =
     Some (Inl (TypeError ''this.read is not a function''), newStreamDecoder src)"
proof -
  have "decodeStep (p\<lparr>read := AsyncIterable chunks\<rparr>) (newStreamDecoder src) =
     (Inl (TypeError ''this.read is not a function''), newStreamDecoder src)"
    by (simp add: run_defs)
  then show ?thesis
    by (simp add: decodeStream_def decode_def reinitializeState_def doDecodeSync_fails
        newStreamDecoder_def HEAD_BYTE_REQUIRED_def)
qed

subsection \<open>Running the decoder on a given input\<close>

lemma doDecodeSync_if:
  "doDecodeSync p s =
     (if fst (decodeStep p s) = Inr None then doDecodeSync p (snd (decodeStep p s))
      else Some (case fst (decodeStep p s) of
                   Inl e \<Rightarrow> Inl e
                 | Inr r \<Rightarrow> Inr (case r of Some object \<Rightarrow> object | None \<Rightarrow> JUndefined),
                 snd (decodeStep p s)))"
  by (subst doDecodeSync.simps) (auto split: prod.splits sum.splits option.splits)


lemma replicate_2: "replicate 2 x = [x, x]"
  by (simp add: numeral_2_eq_2)

lemmas eval_defs = doDecodeSync_if run_defs replicate_2 char_of_def bit_Suc_0_iff

subsection \<open>The frame stack\<close>

lemma readBytes_frame:
  assumes "readBytes p n s = (r, s')"
  shows "stack s' = stack s" "headByte s' = headByte s"
proof -
  from assms obtain r0 where "readBytesLoop p n 0 (ensureBufferSizeToWrite n s) = (r0, s')"
    by (auto simp: readBytes_def split: prod.splits sum.splits)
  from readBytesLoop_frame [OF this]
  show "stack s' = stack s" "headByte s' = headByte s"
    by (simp_all add: ensureBufferSizeToWrite_def resizeBuffer_def)
qed

lemma guar_stack_readBytes:
  "guar (\<lambda>s. Q (stack s)) (\<lambda>e s. Q (stack s)) always (readBytes p n)"
  by (rule guarI) (auto dest: readBytes_frame)












subsection \<open>Map keys\<close>

lemma list_all_recordSet:
  "list_all Q m \<Longrightarrow> Q (k, v) \<Longrightarrow> list_all Q (recordSet m k v)"
  by (induction m k v rule: recordSet.induct) auto

lemma list_all_arraySet:
  "list_all Q xs \<Longrightarrow> Q v \<Longrightarrow> Q JUndefined \<Longrightarrow> list_all Q (arraySet xs i v)"
  by (auto simp: arraySet_def list_all_length nth_list_update nth_append)

lemma keys_propagate:
  assumes K: "\<And>k. isValidMapKeyType k \<Longrightarrow> k \<noteq> JString ''__proto__'' \<Longrightarrow> K k"
  shows "list_all (frameKeys K) stk \<Longrightarrow> allKeys K obj \<Longrightarrow> propagate obj stk = (Inr r, stk') \<Longrightarrow>
     list_all (frameKeys K) stk' \<and> whenSome (allKeys K) r"
proof (induction obj stk rule: propagate.induct)
  case (1 object)
  then show ?case by auto
next
  case (2 object sz array position rest)
  show ?case
  proof (cases "position + 1 = sz")
    case True
    have "allKeys K (JArray (arraySet array position object))"
      using 2(2,3) by (simp add: list_all_arraySet)
    with 2(1) [OF refl refl True] 2(2,4) True show ?thesis by (simp add: Let_def)
  next
    case False
    with 2(2,3,4) show ?thesis by (auto simp: Let_def list_all_arraySet)
  qed
next
  case (3 object sz key readCount m rest)
  then show ?case by (auto simp: K split: if_splits)
next
  case (4 object sz key readCount m rest)
  from 4(2) obtain k where k: "key = Some k" "K k" by (auto split: option.splits)
  have m': "list_all (\<lambda>kv. K (fst kv) \<and> allKeys K (snd kv)) (recordSet m (keyOf key) object)"
    using 4(2,3) k by (auto simp: keyOf_def intro: list_all_recordSet)
  show ?case
  proof (cases "readCount + 1 = sz")
    case True
    have "allKeys K (JObject (recordSet m (keyOf key) object))" using m' by simp
    with 4(1) [OF refl refl True] 4(2,4) True show ?thesis by (simp add: Let_def)
  next
    case False
    with 4(2,4) m' show ?thesis by (auto simp: Let_def)
  qed
qed

lemma keys_decodeStep:
  assumes K: "\<And>k. isValidMapKeyType k \<Longrightarrow> k \<noteq> JString ''__proto__'' \<Longrightarrow> K k"
    and ext: "\<And>v bs t x. extensionCodec p v bs t = Inr x \<Longrightarrow> allKeys K x"
  shows "guar (\<lambda>s. list_all (frameKeys K) (stack s)) (\<lambda>e s. True) (whenSome (allKeys K))
     (decodeStep p)"
proof (rule guar_decodeStep)
  show "guar (\<lambda>s. list_all (frameKeys K) (stack s)) (\<lambda>e s. True) always (readBytes p n)" for n
    by (rule guarI) (auto dest: readBytes_frame)
  show "guar (\<lambda>s. list_all (frameKeys K) (stack s)) (\<lambda>e s. True) always (pushMapState p n)" for n
    by (intro guarI) (auto simp: pushMapState_def split: if_splits)
  show "guar (\<lambda>s. list_all (frameKeys K) (stack s)) (\<lambda>e s. True) always (pushArrayState p n)" for n
    by (intro guarI) (auto simp: pushArrayState_def list_all_iff split: if_splits)
  show "guar (\<lambda>s. list_all (frameKeys K) (stack s)) (\<lambda>e s. True) (whenSome (allKeys K))
     (propagateStack obj)" if "allKeys K obj" for obj
    using that keys_propagate [where K = K, OF K]
    by (intro guarI) (auto simp: propagateStack_def split: prod.splits)
  show "allKeys K x" if "extensionCodec p v bs t = Inr x" for v bs t x
    using that by (rule ext)
qed simp_all

lemma keys_doDecodeSync:
  assumes K: "\<And>k. isValidMapKeyType k \<Longrightarrow> k \<noteq> JString ''__proto__'' \<Longrightarrow> K k"
    and ext: "\<And>v bs t x. extensionCodec p v bs t = Inr x \<Longrightarrow> allKeys K x"
    and stk: "list_all (frameKeys K) (stack s)"
    and run: "doDecodeSync p s = Some (Inr v, s')"
  shows "allKeys K v"
  using guar_doDecodeSync [OF keys_decodeStep [of K p, OF K ext] run stk] by simp

lemma isValidMapKeyType_iff:
  "isValidMapKeyType k \<longleftrightarrow> (\<exists>str. k = JString str) \<or> (\<exists>n. k = JNumber n)"
  by (cases k) (simp_all add: isValidMapKeyType_def)

lemma key_rejected:
  assumes h: "readHeadByte p s = (Inr hb, s1)"
    and d: "decodeHead p hb s1 = (Inr (Some obj), s2)"
    and pr: "propagate obj (stack s2) = (Inl e, stk)"
  shows "doDecodeSync p s = Some (Inl e, s2\<lparr>headByte := HEAD_BYTE_REQUIRED, stack := stk\<rparr>)"
proof -
  have "decodeStep p s = (Inl e, s2\<lparr>headByte := HEAD_BYTE_REQUIRED, stack := stk\<rparr>)"
    using h d pr by (simp add: decodeStep_def bnd_Inr complete_def propagateStack_def)
  then show ?thesis by (rule doDecodeSync_fails)
qed

text \<open>
  Claim C4. When the value completed as a map key is the string \<open>__proto__\<close>, the decode
  fails with the DecodeError "The key __proto__ is not allowed"; and no map of a decode
  that succeeds has the key \<open>__proto__\<close>, given that no extension handler returns a map
  with that key.
\<close>

theorem proto_key_rejected:
  "(readHeadByte p s = (Inr hb, s1) \<and> decodeHead p hb s1 = (Inr (Some (JString ''__proto__'')), s2) \<and>
      stack s2 = StackMapState STATE_MAP_KEY sz key readCount m # rest \<longrightarrow>
      doDecodeSync p s =
        Some (Inl (DecodeError ''The key __proto__ is not allowed''),
              s2\<lparr>headByte := HEAD_BYTE_REQUIRED\<rparr>))
   \<and> ((\<forall>v bs t x. extensionCodec p v bs t = Inr x \<longrightarrow> allKeys notProto x) \<and> stack s = [] \<and>
      doDecodeSync p s = Some (Inr v, s') \<longrightarrow> allKeys notProto v)"
proof -
  have A: "doDecodeSync p s =
        Some (Inl (DecodeError ''The key __proto__ is not allowed''),
              s2\<lparr>headByte := HEAD_BYTE_REQUIRED\<rparr>)"
    if a: "readHeadByte p s = (Inr hb, s1) \<and>
      decodeHead p hb s1 = (Inr (Some (JString ''__proto__'')), s2) \<and>
      stack s2 = StackMapState STATE_MAP_KEY sz key readCount m # rest"
  proof -
    from a have "propagate (JString ''__proto__'') (stack s2) =
        (Inl (DecodeError ''The key __proto__ is not allowed''), stack s2)"
      by (simp add: isValidMapKeyType_def)
    from key_rejected [OF _ _ this, of p s hb s1] a show ?thesis by simp
  qed
  have B: "allKeys notProto v"
    if b: "(\<forall>v bs t x. extensionCodec p v bs t = Inr x \<longrightarrow> allKeys notProto x) \<and> stack s = [] \<and>
      doDecodeSync p s = Some (Inr v, s')"
  proof (rule keys_doDecodeSync [where K = notProto and p = p and s = s and s' = s'])
    show "notProto k" if "k \<noteq> JString ''__proto__''" for k :: "view jsval"
      using that by (simp add: notProto_def)
    show "allKeys notProto x" if "extensionCodec p v bs t = Inr x" for v bs t x
      using that b by blast
    show "list_all (frameKeys notProto) (stack s)" using b by simp
    show "doDecodeSync p s = Some (Inr v, s')" using b by simp
  qed
  from A B show ?thesis by blast
qed

text \<open>
  A witness: in the map \<open>{__proto__: nil}\<close> the decode fails at the key; the map
  \<open>{a: 1}\<close> is decoded.
\<close>

theorem proto_key_rejected_witness:
  "doDecodeSync (defaultParams (Callback (benchmarkRead
       [0x81, 0xa9, 0x5f, 0x5f, 0x70, 0x72, 0x6f, 0x74, 0x6f, 0x5f, 0x5f, 0xc0])))
     \<lparr>headByte = - 1, bytes = 129 # replicate 2047 0, retired = [],
       stack = [StackMapState STATE_MAP_KEY 1 None 0 []], source = 1\<rparr> =
     Some (Inl (DecodeError ''The key __proto__ is not allowed''),
       \<lparr>headByte = - 1,
         bytes = 95 # 95 # 112 # 114 # 111 # 116 # 111 # 95 # 95 # replicate 2039 0,
         retired = [], stack = [StackMapState STATE_MAP_KEY 1 None 0 []], source = 11\<rparr>)
   \<and> allKeys notProto (JObject [(JString ''a'', JNumber (Integer 1))] :: view jsval)"
proof -
  let ?p = "defaultParams (Callback (benchmarkRead
       [0x81, 0xa9, 0x5f, 0x5f, 0x70, 0x72, 0x6f, 0x74, 0x6f, 0x5f, 0x5f, 0xc0]))"
  let ?q = "defaultParams (Callback (benchmarkRead [0x81, 0xa1, 0x61, 0x01]))"
  let ?f = "StackMapState STATE_MAP_KEY 1 None 0 []"
  let ?s = "\<lparr>headByte = - 1, bytes = 129 # replicate 2047 0, retired = [],
       stack = [?f], source = 1::nat\<rparr>"
  let ?s1 = "\<lparr>headByte = 169, bytes = 169 # replicate 2047 0, retired = [],
       stack = [?f], source = 2::nat\<rparr>"
  let ?s2 = "\<lparr>headByte = 169,
         bytes = 95 # 95 # 112 # 114 # 111 # 116 # 111 # 95 # 95 # replicate 2039 0,
         retired = [], stack = [?f], source = 11::nat\<rparr>"
  have h: "readHeadByte ?p ?s = (Inr 0xa9, ?s1)"
    by (simp add: eval_defs)
  have d: "decodeHead ?p 0xa9 ?s1 = (Inr (Some (JString ''__proto__'')), ?s2)"
    by (simp add: eval_defs)
  from proto_key_rejected [where p = ?p and s = ?s and hb = "0xa9" and ?s1.0 = ?s1
      and ?s2.0 = ?s2 and sz = 1 and key = None and readCount = 0 and m = "[]" and rest = "[]"]
    h d
  have 1: "doDecodeSync ?p ?s =
     Some (Inl (DecodeError ''The key __proto__ is not allowed''),
           ?s2\<lparr>headByte := HEAD_BYTE_REQUIRED\<rparr>)"
    by simp
  have ok: "doDecodeSync ?q (newStreamDecoder 0) =
     Some (Inr (JObject [(JString ''a'', JNumber (Integer 1))]),
       \<lparr>headByte = - 1, bytes = 1 # replicate 2047 0, retired = [], stack = [], source = 4\<rparr>)"
    by (simp add: eval_defs)
  have ext: "\<forall>v bs t x. extensionCodec ?q v bs t = Inr x \<longrightarrow> allKeys notProto x"
    by (simp add: defaultParams_def)
  have st: "stack (newStreamDecoder (0::nat)) = []"
    by (simp add: newStreamDecoder_def)
  from proto_key_rejected [where p = ?q and s = "newStreamDecoder 0"
      and v = "JObject [(JString ''a'', JNumber (Integer 1))]"] ok ext st
  have 2: "allKeys notProto (JObject [(JString ''a'', JNumber (Integer 1))] :: view jsval)"
    by blast
  from 1 2 show ?thesis by (simp add: HEAD_BYTE_REQUIRED_def)
qed

lemma presentedKey_rejected:
  "presentedKey obj stk = Some (k, stk') \<Longrightarrow> \<not> isValidMapKeyType k \<Longrightarrow>
     propagate obj stk =
       (Inl (DecodeError (''The type of key must be string or number but '' @ typeof k)), stk')"
  by (induction obj stk rule: propagate.induct) (auto simp: Let_def split: if_splits)

text \<open>
  Claim C5, as amended. A decode that succeeds has only strings and numbers as map keys,
  where a number is an integer or a 32- or 64-bit float, given that no extension handler
  returns a map with another key. When the value completed as a map key is neither a
  string nor a number (nil, a boolean, a binary, an array, a map, another object), the
  decode fails with the DecodeError "The type of key must be string or number but ...":
  both when that value is what the head byte yields with the key-awaiting frame on top,
  and when it is an array or a map that the head byte's value completes, so that it is
  given to the key-awaiting frame below.
\<close>

theorem map_keys_are_strings_or_numbers:
  "(readHeadByte p s = (Inr hb, s1) \<and> decodeHead p hb s1 = (Inr (Some obj), s2) \<and>
      stack s2 = StackMapState STATE_MAP_KEY sz key readCount m # rest \<and>
      \<not> isValidMapKeyType obj \<longrightarrow>
      doDecodeSync p s =
        Some (Inl (DecodeError (''The type of key must be string or number but '' @ typeof obj)),
              s2\<lparr>headByte := HEAD_BYTE_REQUIRED\<rparr>))
   \<and> (readHeadByte p s = (Inr hb, s1) \<and> decodeHead p hb s1 = (Inr (Some obj), s2) \<and>
      presentedKey obj (stack s2) = Some (k, stk') \<and> \<not> isValidMapKeyType k \<longrightarrow>
      doDecodeSync p s =
        Some (Inl (DecodeError (''The type of key must be string or number but '' @ typeof k)),
              s2\<lparr>headByte := HEAD_BYTE_REQUIRED, stack := stk'\<rparr>))
   \<and> ((\<forall>v bs t x. extensionCodec p v bs t = Inr x \<longrightarrow> allKeys isValidMapKeyType x) \<and>
      stack s = [] \<and> doDecodeSync p s = Some (Inr v, s') \<longrightarrow> allKeys isValidMapKeyType v)
   \<and> (isValidMapKeyType k \<longleftrightarrow> (\<exists>str. k = JString str) \<or> (\<exists>n. k = JNumber n))"
proof -
  have A: "doDecodeSync p s =
        Some (Inl (DecodeError (''The type of key must be string or number but '' @ typeof obj)),
              s2\<lparr>headByte := HEAD_BYTE_REQUIRED\<rparr>)"
    if a: "readHeadByte p s = (Inr hb, s1) \<and> decodeHead p hb s1 = (Inr (Some obj), s2) \<and>
      stack s2 = StackMapState STATE_MAP_KEY sz key readCount m # rest \<and>
      \<not> isValidMapKeyType obj"
  proof -
    from a have "propagate obj (stack s2) =
        (Inl (DecodeError (''The type of key must be string or number but '' @ typeof obj)),
         stack s2)"
      by simp
    from key_rejected [OF _ _ this, of p s hb s1] a show ?thesis by simp
  qed
  have C: "doDecodeSync p s =
        Some (Inl (DecodeError (''The type of key must be string or number but '' @ typeof k)),
              s2\<lparr>headByte := HEAD_BYTE_REQUIRED, stack := stk'\<rparr>)"
    if c: "readHeadByte p s = (Inr hb, s1) \<and> decodeHead p hb s1 = (Inr (Some obj), s2) \<and>
      presentedKey obj (stack s2) = Some (k, stk') \<and> \<not> isValidMapKeyType k"
  proof -
    from c have "propagate obj (stack s2) =
        (Inl (DecodeError (''The type of key must be string or number but '' @ typeof k)), stk')"
      by (intro presentedKey_rejected) simp_all
    from key_rejected [OF _ _ this, of p s hb s1] c show ?thesis by blast
  qed
  have B: "allKeys isValidMapKeyType v"
    if b: "(\<forall>v bs t x. extensionCodec p v bs t = Inr x \<longrightarrow> allKeys isValidMapKeyType x) \<and>
      stack s = [] \<and> doDecodeSync p s = Some (Inr v, s')"
  proof (rule keys_doDecodeSync [where K = isValidMapKeyType and p = p and s = s and s' = s'])
    show "allKeys isValidMapKeyType x" if "extensionCodec p v bs t = Inr x" for v bs t x
      using that b by blast
    show "list_all (frameKeys isValidMapKeyType) (stack s)" using b by simp
    show "doDecodeSync p s = Some (Inr v, s')" using b by simp
  qed
  from A B C isValidMapKeyType_iff [of k] show ?thesis by blast
qed

text \<open>
  A witness: in the map \<open>{nil: nil}\<close> the decode fails at the key; in the bytes
  \<open>81 91 01 c0\<close>, a map whose key is the array \<open>[1]\<close>, it fails when the number 1
  completes the array; the map \<open>{a: 1}\<close> is decoded.
\<close>

theorem map_keys_are_strings_or_numbers_witness:
  "doDecodeSync (defaultParams (Callback (benchmarkRead [0x81, 0xc0, 0xc0])))
     \<lparr>headByte = - 1, bytes = 129 # replicate 2047 0, retired = [],
       stack = [StackMapState STATE_MAP_KEY 1 None 0 []], source = 1\<rparr> =
     Some (Inl (DecodeError ''The type of key must be string or number but object''),
       \<lparr>headByte = - 1, bytes = 192 # replicate 2047 0, retired = [],
         stack = [StackMapState STATE_MAP_KEY 1 None 0 []], source = 2\<rparr>)
   \<and> doDecodeSync (defaultParams (Callback (benchmarkRead [0x81, 0x91, 0x01, 0xc0])))
     \<lparr>headByte = - 1, bytes = 145 # replicate 2047 0, retired = [],
       stack = [StackArrayState 1 [JUndefined] 0, StackMapState STATE_MAP_KEY 1 None 0 []],
       source = 2\<rparr> =
     Some (Inl (DecodeError ''The type of key must be string or number but object''),
       \<lparr>headByte = - 1, bytes = 1 # replicate 2047 0, retired = [],
         stack = [StackMapState STATE_MAP_KEY 1 None 0 []], source = 3\<rparr>)
   \<and> allKeys isValidMapKeyType (JObject [(JString ''a'', JNumber (Integer 1))] :: view jsval)"
proof -
  let ?p = "defaultParams (Callback (benchmarkRead [0x81, 0xc0, 0xc0]))"
  let ?q = "defaultParams (Callback (benchmarkRead [0x81, 0xa1, 0x61, 0x01]))"
  let ?r = "defaultParams (Callback (benchmarkRead [0x81, 0x91, 0x01, 0xc0]))"
  let ?f = "StackMapState STATE_MAP_KEY 1 None 0 []"
  let ?a = "StackArrayState 1 [JUndefined] 0"
  let ?s = "\<lparr>headByte = - 1, bytes = 129 # replicate 2047 0, retired = [],
       stack = [?f], source = 1::nat\<rparr>"
  let ?s1 = "\<lparr>headByte = 192, bytes = 192 # replicate 2047 0, retired = [],
       stack = [?f], source = 2::nat\<rparr>"
  let ?t = "\<lparr>headByte = - 1, bytes = 145 # replicate 2047 0, retired = [],
       stack = [?a, ?f], source = 2::nat\<rparr>"
  let ?t1 = "\<lparr>headByte = 1, bytes = 1 # replicate 2047 0, retired = [],
       stack = [?a, ?f], source = 3::nat\<rparr>"
  have h: "readHeadByte ?p ?s = (Inr 0xc0, ?s1)"
    by (simp add: eval_defs)
  have d: "decodeHead ?p 0xc0 ?s1 = (Inr (Some JNull), ?s1)"
    by (simp add: eval_defs)
  have n: "\<not> isValidMapKeyType (JNull :: view jsval)"
    by (simp add: isValidMapKeyType_def)
  from map_keys_are_strings_or_numbers [where p = ?p and s = ?s and hb = "0xc0" and ?s1.0 = ?s1
      and ?s2.0 = ?s1 and obj = JNull and sz = 1 and key = None and readCount = 0 and m = "[]"
      and rest = "[]" and k = "JNull :: view jsval"] h d n
  have 1: "doDecodeSync ?p ?s =
     Some (Inl (DecodeError (''The type of key must be string or number but '' @ typeof (JNull :: view jsval))),
           ?s1\<lparr>headByte := HEAD_BYTE_REQUIRED\<rparr>)"
    by simp
  have h': "readHeadByte ?r ?t = (Inr 0x01, ?t1)"
    by (simp add: eval_defs)
  have d': "decodeHead ?r 0x01 ?t1 = (Inr (Some (JNumber (Integer 1))), ?t1)"
    by (simp add: eval_defs)
  have k': "presentedKey (JNumber (Integer 1)) (stack ?t1) =
     Some (JArray [JNumber (Integer 1)], [?f])"
    by (simp add: arraySet_def)
  have n': "\<not> isValidMapKeyType (JArray [JNumber (Integer 1)] :: view jsval)"
    by (simp add: isValidMapKeyType_def)
  from map_keys_are_strings_or_numbers [where p = ?r and s = ?t and hb = "0x01" and ?s1.0 = ?t1
      and ?s2.0 = ?t1 and obj = "JNumber (Integer 1)"
      and k = "JArray [JNumber (Integer 1)] :: view jsval" and stk' = "[?f]"] h' d' k' n'
  have 3: "doDecodeSync ?r ?t =
     Some (Inl (DecodeError (''The type of key must be string or number but ''
                  @ typeof (JArray [JNumber (Integer 1)] :: view jsval))),
           ?t1\<lparr>headByte := HEAD_BYTE_REQUIRED, stack := [?f]\<rparr>)"
    by blast
  have ok: "doDecodeSync ?q (newStreamDecoder 0) =
     Some (Inr (JObject [(JString ''a'', JNumber (Integer 1))]),
       \<lparr>headByte = - 1, bytes = 1 # replicate 2047 0, retired = [], stack = [], source = 4\<rparr>)"
    by (simp add: eval_defs)
  have ext: "\<forall>v bs t x. extensionCodec ?q v bs t = Inr x \<longrightarrow> allKeys isValidMapKeyType x"
    by (simp add: defaultParams_def)
  have st: "stack (newStreamDecoder (0::nat)) = []"
    by (simp add: newStreamDecoder_def)
  from map_keys_are_strings_or_numbers [where p = ?q and s = "newStreamDecoder 0"
      and v = "JObject [(JString ''a'', JNumber (Integer 1))]" and k = "JNull :: view jsval"] ok ext st
  have 2: "allKeys isValidMapKeyType (JObject [(JString ''a'', JNumber (Integer 1))] :: view jsval)"
    by blast
  from 1 2 3 show ?thesis by (simp add: HEAD_BYTE_REQUIRED_def)
qed

text \<open>
  Claim C5 as stated fails for a float key: the map with the one pair of the 32-bit
  float 1.5 (bits \<open>0x3fc00000\<close>) and nil is decoded.
\<close>

theorem float_key_accepted:
  "doDecodeSync (defaultParams (Callback (benchmarkRead [0x81, 0xca, 0x3f, 0xc0, 0x00, 0x00, 0xc0])))
     (newStreamDecoder 0) =
   Some (Inr (JObject [(JNumber (Float32 0x3fc00000), JNull)]),
         \<lparr>headByte = - 1, bytes = 192 # 192 # 0 # 0 # replicate 2044 0, retired = [],
          stack = [], source = 7\<rparr>)"
  by (simp add: eval_defs)

subsection \<open>Length limits\<close>

lemma over_limit:
  "n > maxMapLength p \<Longrightarrow> pushMapState p n s = (Inl (tooLong MapLength), s)"
  "n > maxArrayLength p \<Longrightarrow> pushArrayState p n s = (Inl (tooLong ArrayLength), s)"
  "n > maxStrLength p \<Longrightarrow> decodeUtf8String p n s = (Inl (tooLong StrLength), s)"
  "n > maxBinLength p \<Longrightarrow> decodeBinary p n s = (Inl (tooLong BinLength), s)"
  "n > maxExtLength p \<Longrightarrow> decodeExtension p n s = (Inl (tooLong ExtLength), s)"
  by (simp_all add: pushMapState_def pushArrayState_def decodeUtf8String_def decodeBinary_def
      decodeExtension_def throw_def tooLong_def)

lemma over_limit_branch:
  "n > maxMapLength p \<Longrightarrow> mapOfSize p n s = (Inl (tooLong MapLength), s)"
  "n > maxArrayLength p \<Longrightarrow> arrayOfSize p n s = (Inl (tooLong ArrayLength), s)"
  "n > maxStrLength p \<Longrightarrow> strOfLength p n s = (Inl (tooLong StrLength), s)"
  "n > maxBinLength p \<Longrightarrow> binOfSize p n s = (Inl (tooLong BinLength), s)"
  "n > maxExtLength p \<Longrightarrow> extOfSize p n s = (Inl (tooLong ExtLength), s)"
  by (auto simp: mapOfSize_def arrayOfSize_def strOfLength_def binOfSize_def extOfSize_def
      over_limit bnd_def)

lemma lengthOf_cases:
  assumes "lengthOf k rd s = (Inr (Some (k', n)), s1)"
  shows "k' = k \<and> rd s = (Inr n, s1)"
  using assms by (auto simp: lengthOf_def ret_def elim!: bnd_cases)

lemma over_limit_decodeHead:
  assumes lf: "lengthField p hb s = (Inr (Some (k, n)), s1)" and n: "n > maxLength p k"
  shows "decodeHead p hb s = (Inl (tooLong k), s1)"
proof -
  consider "hb \<ge> 0xe0" | "hb < 0x80" | "0x80 \<le> hb \<and> hb < 0x90" | "0x90 \<le> hb \<and> hb < 0xa0"
    | "0xa0 \<le> hb \<and> hb < 0xc0" | "0xc0 \<le> hb \<and> hb < 0xe0" by linarith
  then show ?thesis
  proof cases
    case 1
    with lf show ?thesis by (simp add: lengthField_def ret_def)
  next
    case 2
    with lf show ?thesis by (simp add: lengthField_def ret_def)
  next
    case 3
    with lf n show ?thesis
      by (auto simp: lengthField_def decodeHead_def ret_def over_limit_branch)
  next
    case 4
    with lf n show ?thesis
      by (auto simp: lengthField_def decodeHead_def ret_def over_limit_branch)
  next
    case 5
    with lf n show ?thesis
      by (auto simp: lengthField_def decodeHead_def ret_def over_limit_branch)
  next
    case 6
    with lf n show ?thesis
      by (auto simp: lengthField_def decodeHead_def ret_def over_limit_branch bnd_Inr
          split: if_splits dest!: lengthOf_cases)
  qed
qed


lemma stack_reads:
  "readU8 p s = (r, s') \<Longrightarrow> stack s' = stack s"
  "readU16 p s = (r, s') \<Longrightarrow> stack s' = stack s"
  "readU32 p s = (r, s') \<Longrightarrow> stack s' = stack s"
proof -
  have g: "guar (\<lambda>x. stack x = stack s) (\<lambda>e x. stack x = stack s) always (readBytes p n)" for n
    by (rule guar_stack_readBytes)
  note rds = guar_reads [OF g]
  show "readU8 p s = (r, s') \<Longrightarrow> stack s' = stack s"
    using guarD_Inl [OF rds(1), of s _ s'] guarD_Inr [OF rds(1), of s _ s'] by (cases r) auto
  show "readU16 p s = (r, s') \<Longrightarrow> stack s' = stack s"
    using guarD_Inl [OF rds(2), of s _ s'] guarD_Inr [OF rds(2), of s _ s'] by (cases r) auto
  show "readU32 p s = (r, s') \<Longrightarrow> stack s' = stack s"
    using guarD_Inl [OF rds(3), of s _ s'] guarD_Inr [OF rds(3), of s _ s'] by (cases r) auto
qed

lemma stack_readHeadByte:
  "readHeadByte p s = (r, s') \<Longrightarrow> stack s' = stack s"
  by (auto simp: readHeadByte_def split: if_splits elim!: bnd_cases dest: stack_reads)

lemma stack_lengthField:
  "lengthField p hb s = (r, s') \<Longrightarrow> stack s' = stack s"
  by (auto simp: lengthField_def lengthOf_def ret_def split: if_splits elim!: bnd_cases
      dest: stack_reads)


text \<open>
  Claim C3. A string, binary, array, map or extension length above its configured
  maximum makes the function that is given the length throw a DecodeError and leave
  the decoder as it was: no frame is pushed (the array of that length is not made), the
  scratch buffer is not resized and the source is not pulled. In a decode: when the head
  byte declares a length above the maximum, the decode fails with that DecodeError, in
  the state in which the length was read, the stack being what it was.
\<close>

theorem length_limits_enforced:
  "(n > maxMapLength p \<longrightarrow> pushMapState p n s = (Inl (tooLong MapLength), s))
   \<and> (n > maxArrayLength p \<longrightarrow> pushArrayState p n s = (Inl (tooLong ArrayLength), s))
   \<and> (n > maxStrLength p \<longrightarrow> decodeUtf8String p n s = (Inl (tooLong StrLength), s))
   \<and> (n > maxBinLength p \<longrightarrow> decodeBinary p n s = (Inl (tooLong BinLength), s))
   \<and> (n > maxExtLength p \<longrightarrow> decodeExtension p n s = (Inl (tooLong ExtLength), s))
   \<and> (readHeadByte p s0 = (Inr hb, s1) \<and> lengthField p hb s1 = (Inr (Some (k, m)), s2) \<and>
        m > maxLength p k \<longrightarrow>
        doDecodeSync p s0 = Some (Inl (tooLong k), s2) \<and> isDecodeError (tooLong k) \<and>
        stack s2 = stack s0)"
proof -
  have "doDecodeSync p s0 = Some (Inl (tooLong k), s2) \<and> isDecodeError (tooLong k) \<and>
        stack s2 = stack s0"
    if a: "readHeadByte p s0 = (Inr hb, s1) \<and> lengthField p hb s1 = (Inr (Some (k, m)), s2) \<and>
        m > maxLength p k"
  proof -
    from a have "decodeHead p hb s1 = (Inl (tooLong k), s2)"
      by (auto intro: over_limit_decodeHead)
    with a have "decodeStep p s0 = (Inl (tooLong k), s2)"
      by (simp add: decodeStep_def bnd_Inr bnd_Inl)
    then have "doDecodeSync p s0 = Some (Inl (tooLong k), s2)"
      by (rule doDecodeSync_fails)
    moreover have "isDecodeError (tooLong k)"
      by (cases k) (simp_all add: tooLong_def)
    moreover have "stack s2 = stack s0"
      using a stack_readHeadByte [of p s0 "Inr hb" s1]
        stack_lengthField [of p hb s1 "Inr (Some (k, m))" s2] by simp
    ultimately show ?thesis by simp
  qed
  then show ?thesis by (simp add: over_limit)
qed

text \<open>
  A witness: an array 16 header that declares 5 elements where the maximum is 4, and a
  binary of 5 bytes where the maximum is 4.
\<close>

theorem length_limits_enforced_witness:
  "doDecodeSync
     ((defaultParams (Callback (benchmarkRead [0xdc, 0x00, 0x05, 0x01])))\<lparr>maxArrayLength := 4\<rparr>)
     (newStreamDecoder 0) =
   Some (Inl (DecodeError ''Max length exceeded: array length''),
         \<lparr>headByte = 220, bytes = 0 # 5 # replicate 2046 0, retired = [], stack = [],
          source = 3\<rparr>)
   \<and> decodeBinary
     ((defaultParams (Callback (benchmarkRead [0xdc, 0x00, 0x05, 0x01])))\<lparr>maxBinLength := 4\<rparr>) 5
     (newStreamDecoder 0) =
     (Inl (DecodeError ''Max length exceeded: bin length''), newStreamDecoder 0)"
proof -
  let ?p = "(defaultParams (Callback (benchmarkRead [0xdc, 0x00, 0x05, 0x01])))\<lparr>maxArrayLength := 4\<rparr>"
  let ?q = "(defaultParams (Callback (benchmarkRead [0xdc, 0x00, 0x05, 0x01])))\<lparr>maxBinLength := 4\<rparr>"
  let ?s1 = "\<lparr>headByte = 220, bytes = 220 # replicate 2047 0, retired = [], stack = [],
          source = Suc 0\<rparr>"
  let ?s2 = "\<lparr>headByte = 220, bytes = 0 # 5 # replicate 2046 0, retired = [], stack = [],
          source = 3::nat\<rparr>"
  have h: "readHeadByte ?p (newStreamDecoder 0) = (Inr 0xdc, ?s1)"
    by (simp add: run_defs)
  have l: "lengthField ?p 0xdc ?s1 = (Inr (Some (ArrayLength, 5)), ?s2)"
    by (simp add: lengthField_def lengthOf_def run_defs)
  have m: "5 > maxLength ?p ArrayLength"
    by (simp add: defaultParams_def)
  from length_limits_enforced [where p = ?p and ?s0.0 = "newStreamDecoder 0" and hb = "0xdc"
      and ?s1.0 = ?s1 and k = ArrayLength and m = 5 and ?s2.0 = ?s2] h l m
  have 1: "doDecodeSync ?p (newStreamDecoder 0) = Some (Inl (tooLong ArrayLength), ?s2)"
    by blast
  have "5 > maxBinLength ?q" by (simp add: defaultParams_def)
  with length_limits_enforced [where p = ?q and n = 5 and s = "newStreamDecoder 0"]
  have 2: "decodeBinary ?q 5 (newStreamDecoder 0) = (Inl (tooLong BinLength), newStreamDecoder 0)"
    by blast
  from 1 2 show ?thesis by (simp add: tooLong_def)
qed

subsection \<open>The stream decoder and the buffer-resident decoder\<close>

lemma simulatesI:
  assumes "\<And>s t y t'. R s t \<Longrightarrow> a' t = (Inr y, t') \<Longrightarrow> \<exists>x s'. a s = (Inr x, s') \<and> V x s' y t'"
  shows "simulates R V a a'"
  unfolding simulates_def using assms by blast

lemma simulatesD:
  assumes "simulates R V a a'" "R s t" "a' t = (Inr y, t')"
  obtains x s' where "a s = (Inr x, s')" "V x s' y t'"
  using assms unfolding simulates_def by blast

lemma bnd_returns:
  assumes "bnd m f s = (Inr y, s'')"
  obtains x s' where "m s = (Inr x, s')" "f x s' = (Inr y, s'')"
  using assms by (auto simp: bnd_def split: prod.splits sum.splits)

lemma sim_bnd:
  assumes a: "simulates R V a a'"
    and f: "\<And>x y. simulates (\<lambda>s t. V x s y t) W (f x) (f' y)"
  shows "simulates R W (bnd a f) (bnd a' f')"
proof (rule simulatesI)
  fix s t z t''
  assume R: "R s t" and run: "bnd a' f' t = (Inr z, t'')"
  from run obtain y t' where 1: "a' t = (Inr y, t')" and 2: "f' y t' = (Inr z, t'')"
    by (rule bnd_returns)
  from a R 1 obtain x s' where 3: "a s = (Inr x, s')" and V: "V x s' y t'"
    by (rule simulatesD)
  from f V 2 obtain w s'' where 4: "f x s' = (Inr w, s'')" and W: "W w s'' z t''"
    by (rule simulatesD)
  from 3 4 have "bnd a f s = (Inr w, s'')" by (simp add: bnd_def)
  with W show "\<exists>x s'. bnd a f s = (Inr x, s') \<and> W x s' z t''" by blast
qed

lemma sim_bnd_same:
  assumes a: "simulates R (sameResult (=)) a a'"
    and f: "\<And>x. simulates related W (f x) (f' x)"
  shows "simulates R W (bnd a f) (bnd a' f')"
proof (rule sim_bnd [OF a])
  fix x y
  show "simulates (\<lambda>s t. sameResult (=) x s y t) W (f x) (f' y)"
    using f [of x] unfolding simulates_def sameResult_def by blast
qed

lemma sim_ret:
  assumes "\<And>s t. R s t \<Longrightarrow> V x s y t"
  shows "simulates R V (ret x) (ret y)"
  using assms unfolding simulates_def ret_def by auto

lemma sim_throw: "simulates R V a (throw e)"
  unfolding simulates_def throw_def by simp

lemma sim_if:
  assumes "c \<Longrightarrow> simulates R V a a'" "\<not> c \<Longrightarrow> simulates R V b b'"
  shows "simulates R V (if c then a else b) (if c then a' else b')"
  using assms by simp

lemma sim_if_throw:
  assumes "\<not> c \<Longrightarrow> simulates R V b b'"
  shows "simulates R V (if c then throw e else b) (if c then throw e' else b')"
  using assms by (simp add: sim_throw)

subsection \<open>Reading from chunks\<close>

lemma callRead_chunks:
  assumes rd: "read p = Callback chunkRead"
    and src: "source s = c # cs"
    and pos: "pos < len" "len \<le> length (bytes s)"
  shows "callRead p pos len s =
     (Inr (int (min (length c) (len - pos))),
      s\<lparr>bytes := take pos (bytes s) @ take (len - pos) c
                  @ drop (pos + min (length c) (len - pos)) (bytes s),
        source := (if length c \<le> len - pos then cs else drop (len - pos) c # cs)\<rparr>)"
  using assms by (simp add: callRead_def chunkRead_def Let_def min_def)

lemma readBytesLoop_chunks:
  assumes rd: "read p = Callback chunkRead"
  shows "[] \<notin> set (source s) \<Longrightarrow> pos \<le> len \<Longrightarrow> len \<le> length (bytes s) \<Longrightarrow>
     len - pos \<le> length (concat (source s)) \<Longrightarrow>
     \<exists>s'. readBytesLoop p len pos s = (Inr (), s') \<and>
       take len (bytes s') = take pos (bytes s) @ take (len - pos) (concat (source s)) \<and>
       concat (source s') = drop (len - pos) (concat (source s)) \<and>
       [] \<notin> set (source s') \<and> length (bytes s') = length (bytes s) \<and>
       retired s' = retired s \<and> headByte s' = headByte s \<and> stack s' = stack s"
proof (induction "len - pos" arbitrary: pos s rule: less_induct)
  case less
  show ?case
  proof (cases "pos < len")
    case False
    with less.prems show ?thesis
      by (intro exI [of _ s]) (simp add: readBytesLoop.simps [of p len len s])
  next
    case True
    with less.prems(4) have "length (concat (source s)) \<noteq> 0" by linarith
    then obtain c cs where src: "source s = c # cs"
      by (cases "source s") auto
    with less.prems(1) have c: "c \<noteq> []" by auto
    define k where "k = min (length c) (len - pos)"
    define s1 where "s1 = s\<lparr>bytes := take pos (bytes s) @ take (len - pos) c
                  @ drop (pos + k) (bytes s),
        source := (if length c \<le> len - pos then cs else drop (len - pos) c # cs)\<rparr>"
    have k: "0 < k" "pos + k \<le> len" using c True by (simp_all add: k_def)
    have call: "callRead p pos len s = (Inr (int k), s1)"
      unfolding k_def s1_def using callRead_chunks [OF rd src True less.prems(3)] by simp
    have loop: "readBytesLoop p len pos s = readBytesLoop p len (pos + k) s1"
      using True call k by (simp add: readBytesLoop.simps [of p len pos s])
    have len1: "length (bytes s1) = length (bytes s)"
      using less.prems(2,3) k by (auto simp: s1_def k_def min_def)
    have ne1: "[] \<notin> set (source s1)"
      using less.prems(1) src by (auto simp: s1_def)
    have rest1: "len - (pos + k) \<le> length (concat (source s1))"
      using less.prems(4) src by (auto simp: s1_def k_def min_def)
    have "len - (pos + k) < len - pos" using k True by simp
    from less.hyps [OF this ne1 k(2) _ rest1] less.prems(3) len1
    obtain s' where s': "readBytesLoop p len (pos + k) s1 = (Inr (), s')"
      "take len (bytes s') = take (pos + k) (bytes s1) @ take (len - (pos + k)) (concat (source s1))"
      "concat (source s') = drop (len - (pos + k)) (concat (source s1))"
      "[] \<notin> set (source s')" "length (bytes s') = length (bytes s1)"
      "retired s' = retired s1" "headByte s' = headByte s1" "stack s' = stack s1"
      by auto
    have tk: "take (pos + k) (bytes s1) = take pos (bytes s) @ take k c"
      using less.prems(2,3) k by (auto simp: s1_def k_def min_def)
    have A: "take k c @ take (len - (pos + k)) (concat (source s1)) =
       take (len - pos) (concat (source s))"
      using src k by (auto simp: s1_def k_def min_def)
    have B: "drop (len - (pos + k)) (concat (source s1)) = drop (len - pos) (concat (source s))"
      using src k by (auto simp: s1_def k_def min_def)
    have C: "retired s1 = retired s" "headByte s1 = headByte s" "stack s1 = stack s"
      by (simp_all add: s1_def)
    show ?thesis
      using s' loop tk A B C len1 by (intro exI [of _ s']) simp
  qed
qed

lemma readBytes_chunks:
  assumes rd: "read p = Callback chunkRead"
    and ne: "[] \<notin> set (source s)"
    and n: "n \<le> length (concat (source s))" "n \<le> 2 * length (bytes s)"
  shows "\<exists>s'. readBytes p n s = (Inr (length (retired s'), n), s') \<and>
       take n (bytes s') = take n (concat (source s)) \<and>
       concat (source s') = drop n (concat (source s)) \<and>
       [] \<notin> set (source s') \<and> length (bytes s) \<le> length (bytes s') \<and>
       n \<le> length (bytes s') \<and> headByte s' = headByte s \<and> stack s' = stack s"
proof -
  let ?s0 = "ensureBufferSizeToWrite n s"
  have 0: "[] \<notin> set (source ?s0)" "n \<le> length (bytes ?s0)" "source ?s0 = source s"
    "length (bytes s) \<le> length (bytes ?s0)" "headByte ?s0 = headByte s" "stack ?s0 = stack s"
    using ne n by (auto simp: ensureBufferSizeToWrite_def resizeBuffer_def)
  from readBytesLoop_chunks [OF rd 0(1) _ 0(2), of 0] n(1) 0(3)
  obtain s' where s': "readBytesLoop p n 0 ?s0 = (Inr (), s')"
      "take n (bytes s') = take n (concat (source ?s0))"
      "concat (source s') = drop n (concat (source ?s0))"
      "[] \<notin> set (source s')" "length (bytes s') = length (bytes ?s0)"
      "headByte s' = headByte ?s0" "stack s' = stack ?s0"
    by auto
  then show ?thesis
    using 0 by (intro exI [of _ s']) (simp add: readBytes_def)
qed

lemma sim_readBytes:
  assumes rd: "read p = Callback chunkRead"
  shows "simulates related (bytesRead n) (readBytes p n) (bufReadBytes n)"
proof (rule simulatesI)
  fix s b bs b'
  assume R: "related s b" and run: "bufReadBytes n b = (Inr bs, b')"
  from run have n: "bufPos b + n \<le> length (bufBytes b)"
    and bs: "bs = take n (drop (bufPos b) (bufBytes b))" and b': "b' = b\<lparr>bufPos := bufPos b + n\<rparr>"
    by (auto simp: bufReadBytes_def split: if_splits)
  from R have src: "concat (source s) = drop (bufPos b) (bufBytes b)" "[] \<notin> set (source s)"
    and cap: "length (bufBytes b) \<le> 2 * length (bytes s)"
    by (simp_all add: related_def)
  have n': "n \<le> length (concat (source s))" using n by (simp add: src(1))
  have n2: "n \<le> 2 * length (bytes s)" using n cap by simp
  from readBytes_chunks [OF rd src(2) n' n2]
  obtain s' where s': "readBytes p n s = (Inr (length (retired s'), n), s')"
      "take n (bytes s') = take n (concat (source s))"
      "concat (source s') = drop n (concat (source s))"
      "[] \<notin> set (source s')" "length (bytes s) \<le> length (bytes s')"
      "n \<le> length (bytes s')" "headByte s' = headByte s" "stack s' = stack s"
    by auto
  have "related s' b'"
    using R s' n by (simp add: related_def b' src(1) add.commute)
  moreover have "length bs = n" using n by (simp add: bs)
  ultimately have "bytesRead n (length (retired s'), n) s' bs b'"
    using s' by (simp add: bytesRead_def bs src(1))
  with s'(1) show "\<exists>x s'. readBytes p n s = (Inr x, s') \<and> bytesRead n x s' bs b'" by blast
qed

subsection \<open>Completing values, up to the contents of binaries\<close>

lemma typeof_map [simp]: "typeof (map_jsval f x) = typeof x"
  by (cases x) simp_all

lemma isValidMapKeyType_map [simp]: "isValidMapKeyType (map_jsval f x) = isValidMapKeyType x"
  by (simp add: isValidMapKeyType_def)

lemma proto_map [simp]: "(map_jsval f x = JString str) = (x = JString str)"
  by (cases x) auto

lemma key_map_inject:
  assumes "isValidMapKeyType k" "isValidMapKeyType k'"
  shows "(map_jsval f k' = map_jsval f k) = (k' = k)"
  using assms by (auto simp: isValidMapKeyType_iff)

lemma arraySet_map:
  "map (map_jsval f) (arraySet xs i v) = arraySet (map (map_jsval f) xs) i (map_jsval f v)"
  by (simp add: arraySet_def map_update)

lemma recordSet_map:
  assumes "list_all (\<lambda>kv. isValidMapKeyType (fst kv)) m" "isValidMapKeyType k"
  shows "map (map_prod (map_jsval f) (map_jsval f)) (recordSet m k v) =
     recordSet (map (map_prod (map_jsval f) (map_jsval f)) m) (map_jsval f k) (map_jsval f v)"
  using assms
  by (induction m k v rule: recordSet.induct) (auto simp: key_map_inject)

lemma propagate_map:
  "list_all keysReady stk \<Longrightarrow>
     propagate (map_jsval f x) (map (map_frame f) stk) =
       (case propagate x stk of
          (r, stk') \<Rightarrow> (map_sum id (map_option (map_jsval f)) r, map (map_frame f) stk'))
     \<and> list_all keysReady (snd (propagate x stk))"
proof (induction x stk rule: propagate.induct)
  case (1 object)
  then show ?case by simp
next
  case (2 object sz array position rest)
  then show ?case
    by (auto simp: Let_def arraySet_map)
next
  case (3 object sz key readCount m rest)
  then show ?case by auto
next
  case (4 object sz key readCount m rest)
  from 4(2) obtain k where k: "key = Some k" "isValidMapKeyType k"
    and m: "list_all (\<lambda>kv. isValidMapKeyType (fst kv)) m" and rest: "list_all keysReady rest"
    by (auto split: option.splits)
  have m': "list_all (\<lambda>kv. isValidMapKeyType (fst kv)) (recordSet m k object)"
    using m k(2) by (intro list_all_recordSet) simp_all
  show ?case
  proof (cases "readCount + 1 = sz")
    case True
    with 4(1) [OF refl refl True rest] show ?thesis
      using k m by (simp add: keyOf_def recordSet_map)
  next
    case False
    then show ?thesis
      using k m m' rest by (simp add: keyOf_def recordSet_map)
  qed
qed

lemma keysReady_map [simp]: "keysReady (map_frame g fr) = keysReady fr"
  by (cases fr) (auto simp: list_all_iff split: map_state_type.splits option.splits)

lemma keysReady_maps: "list_all keysReady (map (map_frame g) frs) = list_all keysReady frs"
  by (induction frs) simp_all

lemma sim_propagateStack:
  assumes "sameShape x y"
  shows "simulates related (sameResult (rel_option sameShape)) (propagateStack x) (bufPropagateStack y)"
proof (rule simulatesI)
  fix s b r b'
  assume R: "related s b" and run: "bufPropagateStack y b = (Inr r, b')"
  from R have ks: "list_all keysReady (stack s)"
    and st: "map (map_frame snd) (stack s) = map (map_frame length) (bufStack b)"
    by (simp_all add: related_def)
  have kb: "list_all keysReady (bufStack b)"
    using keysReady_maps [of snd "stack s"] keysReady_maps [of length "bufStack b"] ks st
    by simp
  obtain r1 stk1 where p1: "propagate x (stack s) = (r1, stk1)" by (cases "propagate x (stack s)")
  obtain r2 stk2 where p2: "propagate y (bufStack b) = (r2, stk2)"
    by (cases "propagate y (bufStack b)")
  from run p2 have r2: "r2 = Inr r" and b': "b' = b\<lparr>bufStack := stk2\<rparr>"
    by (auto simp: bufPropagateStack_def)
  from propagate_map [OF ks, of snd x] propagate_map [OF kb, of length y] assms st p1 p2
  have eq: "map_sum id (map_option (map_jsval snd)) r1 = map_sum id (map_option (map_jsval length)) r2"
    "map (map_frame snd) stk1 = map (map_frame length) stk2" "list_all keysReady stk1"
    by (simp_all add: sameShape_def)
  from eq(1) r2 obtain r' where r1: "r1 = Inr r'"
    and rr: "map_option (map_jsval snd) r' = map_option (map_jsval length) r"
    by (cases r1) auto
  have "rel_option sameShape r' r"
    using rr by (cases r'; cases r) (simp_all add: sameShape_def)
  moreover have "related (s\<lparr>stack := stk1\<rparr>) b'"
    using R eq by (simp add: related_def b')
  ultimately show "\<exists>x' s'. propagateStack x s = (Inr x', s') \<and> sameResult (rel_option sameShape) x' s' r b'"
    using p1 r1 by (auto simp: propagateStack_def sameResult_def)
qed

lemma sim_bnd_rel:
  assumes a: "simulates R (sameResult rel) a a'"
    and f: "\<And>x y. rel x y \<Longrightarrow> simulates related W (f x) (f' y)"
  shows "simulates R W (bnd a f) (bnd a' f')"
proof (rule sim_bnd [OF a])
  fix x y
  show "simulates (\<lambda>s t. sameResult rel x s y t) W (f x) (f' y)"
    using f [of x y] unfolding simulates_def sameResult_def by blast
qed

lemma sim_uint:
  assumes rd: "read p = Callback chunkRead"
  shows "simulates related (sameResult (=)) (bnd (readBytes p k) (\<lambda>_. getUint k)) (bufReadUint k)"
  unfolding bufReadUint_def
proof (rule sim_bnd [OF sim_readBytes [OF rd]])
  fix v bs
  show "simulates (\<lambda>s t. bytesRead k v s bs t) (sameResult (=)) (getUint k) (ret (beNat bs))"
    unfolding simulates_def bytesRead_def sameResult_def getUint_def ret_def by auto
qed

lemma sim_int:
  assumes rd: "read p = Callback chunkRead"
  shows "simulates related (sameResult (=)) (bnd (readBytes p k) (\<lambda>_. getInt k)) (bufReadInt k)"
  unfolding bufReadInt_def
proof (rule sim_bnd [OF sim_readBytes [OF rd]])
  fix v bs
  show "simulates (\<lambda>s t. bytesRead k v s bs t) (sameResult (=)) (getInt k)
     (ret (toSigned (8 * k) (beNat bs)))"
    unfolding simulates_def bytesRead_def sameResult_def getInt_def getUint_def ret_def bnd_def
    by auto
qed

lemma sim_readHeadByte:
  assumes rd: "read p = Callback chunkRead"
  shows "simulates related (sameResult (=)) (readHeadByte p) bufReadHeadByte"
proof (rule simulatesI)
  fix s b hb b'
  assume R: "related s b" and run: "bufReadHeadByte b = (Inr hb, b')"
  then have hd: "headByte s = bufHeadByte b" by (simp add: related_def)
  show "\<exists>x s'. readHeadByte p s = (Inr x, s') \<and> sameResult (=) x s' hb b'"
  proof (cases "bufHeadByte b = HEAD_BYTE_REQUIRED")
    case False
    with run R hd show ?thesis
      by (auto simp: readHeadByte_def bufReadHeadByte_def sameResult_def)
  next
    case True
    with run obtain u b1 where u: "bufReadUint 1 b = (Inr u, b1)"
      and hb: "hb = int u" "b' = b1\<lparr>bufHeadByte := int u\<rparr>"
      by (auto simp: bufReadHeadByte_def elim!: bnd_returns)
    from sim_uint [OF rd, of 1] R u obtain x s1
      where x: "bnd (readBytes p 1) (\<lambda>_. getUint 1) s = (Inr x, s1)" "sameResult (=) x s1 u b1"
      by (rule simulatesD)
    then have "readHeadByte p s = (Inr (int u), s1\<lparr>headByte := int u\<rparr>)"
      using True hd by (simp add: readHeadByte_def readU8_def bnd_def sameResult_def)
    moreover have "related (s1\<lparr>headByte := int u\<rparr>) b'"
      using x(2) by (simp add: sameResult_def related_def hb)
    ultimately show ?thesis by (simp add: sameResult_def hb)
  qed
qed

lemma sim_complete: "simulates related (sameResult (\<lambda>_ _. True)) complete bufComplete"
  unfolding simulates_def complete_def bufComplete_def sameResult_def related_def by auto

lemma sim_pushMapState:
  assumes "sameOptions p dp"
  shows "simulates related (sameResult (\<lambda>_ _. True)) (pushMapState p sz) (bufPushMapState dp sz)"
  using assms
  unfolding simulates_def pushMapState_def bufPushMapState_def sameResult_def related_def
    sameOptions_def
  by (auto split: if_splits)

lemma sim_pushArrayState:
  assumes "sameOptions p dp"
  shows "simulates related (sameResult (\<lambda>_ _. True)) (pushArrayState p sz) (bufPushArrayState dp sz)"
  using assms
  unfolding simulates_def pushArrayState_def bufPushArrayState_def sameResult_def related_def
    sameOptions_def
  by (auto split: if_splits)

lemma sim_ret_same:
  assumes "rel x y"
  shows "simulates related (sameResult rel) (ret x) (ret y)"
  using assms by (intro sim_ret) (simp add: sameResult_def)

lemma sim_mapOfSize:
  assumes "sameOptions p dp"
  shows "simulates related (sameResult (rel_option sameShape)) (mapOfSize p sz) (bufMapOfSize dp sz)"
  unfolding mapOfSize_def bufMapOfSize_def
  by (intro sim_if sim_bnd_rel [OF sim_pushMapState [OF assms]] sim_bnd_rel [OF sim_complete]
      sim_ret_same) (simp_all add: sameShape_def)

lemma sim_arrayOfSize:
  assumes "sameOptions p dp"
  shows "simulates related (sameResult (rel_option sameShape)) (arrayOfSize p sz) (bufArrayOfSize dp sz)"
  unfolding arrayOfSize_def bufArrayOfSize_def
  by (intro sim_if sim_bnd_rel [OF sim_pushArrayState [OF assms]] sim_bnd_rel [OF sim_complete]
      sim_ret_same) (simp_all add: sameShape_def)

lemma viewBytes_read: "bytesRead n v s bs b \<Longrightarrow> viewBytes s v = bs"
  by (auto simp: bytesRead_def viewBytes_def buffers_def nth_append)

lemma sim_strOfLength:
  assumes rd: "read p = Callback chunkRead" and o: "sameOptions p dp"
  shows "simulates related (sameResult (rel_option sameShape)) (strOfLength p n) (bufStrOfLength dp n)"
proof -
  have lim: "maxStrLength p = bufMaxStrLength dp" using o by (simp add: sameOptions_def)
  have k: "simulates (\<lambda>s t. bytesRead n v s bs t) (sameResult (=))
     (\<lambda>s. let bs = viewBytes s v in
        (case (if stateIsMapKey s then keyDecoder p else None) of
           Some (canBeCached, keyDecode) \<Rightarrow>
             if canBeCached n then (Inr (keyDecode bs), s)
             else if n > TEXT_DECODER_THRESHOLD p then (Inr (utf8DecodeTD p bs), s)
             else (Inr (utf8DecodeJs p bs), s)
         | None \<Rightarrow>
             if n > TEXT_DECODER_THRESHOLD p then (Inr (utf8DecodeTD p bs), s)
             else (Inr (utf8DecodeJs p bs), s)))
     (ret (bufUtf8Decode dp bs))" for v bs
  proof (rule simulatesI)
    fix s t y t'
    assume R: "bytesRead n v s bs t" and run: "ret (bufUtf8Decode dp bs) t = (Inr y, t')"
    from R have vb: "viewBytes s v = bs" by (rule viewBytes_read)
    from R have rel: "related s t" by (simp add: bytesRead_def)
    from run have y: "y = bufUtf8Decode dp bs" "t' = t" by (simp_all add: ret_def)
    show "\<exists>x s'. (let bs = viewBytes s v in
        (case (if stateIsMapKey s then keyDecoder p else None) of
           Some (canBeCached, keyDecode) \<Rightarrow>
             if canBeCached n then (Inr (keyDecode bs), s)
             else if n > TEXT_DECODER_THRESHOLD p then (Inr (utf8DecodeTD p bs), s)
             else (Inr (utf8DecodeJs p bs), s)
         | None \<Rightarrow>
             if n > TEXT_DECODER_THRESHOLD p then (Inr (utf8DecodeTD p bs), s)
             else (Inr (utf8DecodeJs p bs), s))) = (Inr x, s') \<and> sameResult (=) x s' y t'"
      using o rel by (auto simp: vb y sameResult_def sameOptions_def split: option.splits)
  qed
  have "simulates related (sameResult (=)) (decodeUtf8String p n)
     (if n > bufMaxStrLength dp then throw (DecodeError ''Max length exceeded: UTF-8 byte length'')
      else bnd (bufReadBytes n) (\<lambda>bs. ret (bufUtf8Decode dp bs)))"
    unfolding decodeUtf8String_def lim
    by (intro sim_if_throw sim_bnd [OF sim_readBytes [OF rd]] k)
  then have "simulates related (sameResult (rel_option sameShape)) (strOfLength p n)
     (bnd (if n > bufMaxStrLength dp then throw (DecodeError ''Max length exceeded: UTF-8 byte length'')
      else bnd (bufReadBytes n) (\<lambda>bs. ret (bufUtf8Decode dp bs))) (\<lambda>str. ret (Some (JString str))))"
    unfolding strOfLength_def
    by (rule sim_bnd_rel) (auto intro!: sim_ret_same simp: sameShape_def)
  moreover have "bnd (if n > bufMaxStrLength dp then throw (DecodeError ''Max length exceeded: UTF-8 byte length'')
      else bnd (bufReadBytes n) (\<lambda>bs. ret (bufUtf8Decode dp bs))) (\<lambda>str. ret (Some (JString str)))
      = bufStrOfLength dp n"
    by (auto simp: bufStrOfLength_def bnd_def ret_def throw_def fun_eq_iff
        split: prod.splits sum.splits)
  ultimately show ?thesis by simp
qed

lemma sim_binOfSize:
  assumes rd: "read p = Callback chunkRead" and o: "sameOptions p dp"
  shows "simulates related (sameResult (rel_option sameShape)) (binOfSize p n) (bufBinOfSize dp n)"
proof -
  have lim: "maxBinLength p = bufMaxBinLength dp" using o by (simp add: sameOptions_def)
  have k: "simulates (\<lambda>s t. bytesRead n v s bs t) (sameResult (rel_option sameShape))
     (ret (Some (JUint8Array v))) (ret (Some (JUint8Array bs)))" for v bs
    unfolding simulates_def ret_def sameResult_def bytesRead_def sameShape_def by auto
  have "bnd (if n > maxBinLength p then throw (DecodeError ''Max length exceeded: bin length'')
      else readBytes p n) (\<lambda>v. ret (Some (JUint8Array v))) =
     (if n > maxBinLength p then throw (DecodeError ''Max length exceeded: bin length'')
      else bnd (readBytes p n) (\<lambda>v. ret (Some (JUint8Array v))))"
    by (auto simp: bnd_def throw_def)
  then show ?thesis
    unfolding binOfSize_def bufBinOfSize_def decodeBinary_def lim
    by (simp only:) (intro sim_if_throw sim_bnd [OF sim_readBytes [OF rd]] k)
qed

lemma sim_extOfSize:
  assumes rd: "read p = Callback chunkRead" and o: "sameOptions p dp"
  shows "simulates related (sameResult (rel_option sameShape)) (extOfSize p n) (bufExtOfSize dp n)"
proof -
  have lim: "maxBinLength p = bufMaxBinLength dp" "maxExtLength p = bufMaxExtLength dp"
    using o by (simp_all add: sameOptions_def)
  have k: "simulates (\<lambda>s t. bytesRead n v s bs t) (sameResult (rel_option sameShape))
     (bnd (\<lambda>s. (extensionCodec p v (viewBytes s v) extType, s)) (\<lambda>object. ret (Some object)))
     (\<lambda>st. case bufExtensionCodec dp bs extType of
                Inl e \<Rightarrow> (Inl e, st)
              | Inr object \<Rightarrow> (Inr (Some object), st))" for v bs extType
  proof (rule simulatesI)
    fix s t y t'
    assume R: "bytesRead n v s bs t"
      and run: "(case bufExtensionCodec dp bs extType of
                Inl e \<Rightarrow> (Inl e, t)
              | Inr object \<Rightarrow> (Inr (Some object), t)) = (Inr y, t')"
    from R have vb: "viewBytes s v = bs" by (rule viewBytes_read)
    from R have rel: "related s t" and len: "snd v = length bs" by (simp_all add: bytesRead_def)
    from run obtain w where w: "bufExtensionCodec dp bs extType = Inr w" "y = Some w" "t' = t"
      by (auto split: sum.splits)
    from o len have "sameOutcome (extensionCodec p v bs extType) (bufExtensionCodec dp bs extType)"
      by (cases v) (simp add: sameOptions_def)
    with w obtain x where x: "extensionCodec p v bs extType = Inr x" "sameShape x w"
      by (auto simp: sameOutcome_def sameShape_def split: sum.splits)
    show "\<exists>x s'. bnd (\<lambda>s. (extensionCodec p v (viewBytes s v) extType, s))
        (\<lambda>object. ret (Some object)) s = (Inr x, s') \<and>
        sameResult (rel_option sameShape) x s' y t'"
      using x w rel by (simp add: bnd_def ret_def vb sameResult_def)
  qed
  have e: "extOfSize p n =
     (if n > maxExtLength p then throw (DecodeError ''Max length exceeded: ext length'')
      else bnd (bnd (readBytes p 1) (\<lambda>_. getInt 1)) (\<lambda>extType.
        if n > maxBinLength p then throw (DecodeError ''Max length exceeded: bin length'')
        else bnd (readBytes p n) (\<lambda>v.
          bnd (\<lambda>s. (extensionCodec p v (viewBytes s v) extType, s)) (\<lambda>object. ret (Some object)))))"
    by (auto simp: extOfSize_def decodeExtension_def decodeBinary_def readI8_def bnd_def
        throw_def ret_def fun_eq_iff split: prod.splits sum.splits)
  show ?thesis
    unfolding e bufExtOfSize_def lim
    by (intro sim_if_throw sim_bnd_same [OF sim_int [OF rd]] sim_bnd [OF sim_readBytes [OF rd]] k)
qed

lemma sim_reads:
  assumes rd: "read p = Callback chunkRead"
  shows "simulates related (sameResult (=)) (readU8 p) (bufReadUint 1)"
    "simulates related (sameResult (=)) (readU16 p) (bufReadUint 2)"
    "simulates related (sameResult (=)) (readU32 p) (bufReadUint 4)"
    "simulates related (sameResult (=)) (readU64 p) (bufReadUint 8)"
    "simulates related (sameResult (=)) (readI8 p) (bufReadInt 1)"
    "simulates related (sameResult (=)) (readI16 p) (bufReadInt 2)"
    "simulates related (sameResult (=)) (readI32 p) (bufReadInt 4)"
    "simulates related (sameResult (=)) (readI64 p) (bufReadInt 8)"
  unfolding readU8_def readU16_def readU32_def readU64_def readI8_def readI16_def readI32_def
    readI64_def
  by (rule sim_uint [OF rd] sim_int [OF rd])+

lemma sim_uintOf:
  assumes "simulates related (sameResult (=)) rd (bufReadUint k)"
  shows "simulates related (sameResult (rel_option sameShape)) (uintOf rd) (bufUintOf k)"
  unfolding uintOf_def bufUintOf_def
  by (rule sim_bnd_same [OF assms]) (simp add: sim_ret_same sameShape_def)

lemma sim_intOf:
  assumes "simulates related (sameResult (=)) rd (bufReadInt k)"
  shows "simulates related (sameResult (rel_option sameShape)) (intOf rd) (bufIntOf k)"
  unfolding intOf_def bufIntOf_def
  by (rule sim_bnd_same [OF assms]) (simp add: sim_ret_same sameShape_def)

lemma floatOf_readF32:
  "floatOf (readF32 p) = bnd (readU32 p) (\<lambda>u. ret (Some (JNumber (Float32 (of_nat u)))))"
  by (auto simp: floatOf_def readF32_def readU32_def bnd_def ret_def fun_eq_iff
      split: prod.splits sum.splits)

lemma floatOf_readF64:
  "floatOf (readF64 p) = bnd (readU64 p) (\<lambda>u. ret (Some (JNumber (Float64 (of_nat u)))))"
  by (auto simp: floatOf_def readF64_def readU64_def bnd_def ret_def fun_eq_iff
      split: prod.splits sum.splits)

lemma sim_decodeHead:
  assumes rd: "read p = Callback chunkRead" and o: "sameOptions p dp"
  shows "simulates related (sameResult (rel_option sameShape)) (decodeHead p hb) (bufDecodeHead dp hb)"
proof -
  note r = sim_reads [OF rd]
  show ?thesis
    unfolding decodeHead_def bufDecodeHead_def floatOf_readF32 floatOf_readF64
    by (intro sim_if sim_throw sim_ret_same sim_mapOfSize [OF o] sim_arrayOfSize [OF o]
        sim_strOfLength [OF rd o] sim_binOfSize [OF rd o] sim_extOfSize [OF rd o]
        sim_uintOf sim_intOf r
        sim_bnd_same [OF r(1)] sim_bnd_same [OF r(2)] sim_bnd_same [OF r(3)]
        sim_bnd_same [OF r(4)])
       (simp_all add: sameShape_def)
qed

lemma sim_decodeStep:
  assumes rd: "read p = Callback chunkRead" and o: "sameOptions p dp"
  shows "simulates related (sameResult (rel_option sameShape)) (decodeStep p) (bufDecodeStep dp)"
proof -
  have k: "simulates related (sameResult (rel_option sameShape))
     (case r of None \<Rightarrow> ret None | Some object \<Rightarrow> bnd complete (\<lambda>_. propagateStack object))
     (case r' of None \<Rightarrow> ret None | Some object \<Rightarrow> bnd bufComplete (\<lambda>_. bufPropagateStack object))"
    if "rel_option sameShape r r'" for r r'
    using that
    by (cases r; cases r')
       (auto intro!: sim_ret_same sim_bnd_rel [OF sim_complete] sim_propagateStack)
  show ?thesis
    unfolding decodeStep_def bufDecodeStep_def
    by (intro sim_bnd_same [OF sim_readHeadByte [OF rd]]
        sim_bnd_rel [OF sim_decodeHead [OF rd o]] k)
qed

lemma sim_doDecodeSync:
  assumes rd: "read p = Callback chunkRead" and o: "sameOptions p dp"
    and run: "bufDoDecodeSync dp b = Some (Inr w, b')" and R: "related s b"
  shows "\<exists>v s'. doDecodeSync p s = Some (Inr v, s') \<and> sameShape v w \<and> related s' b'"
proof -
  have "sameOptions p dp \<longrightarrow> (\<forall>s w b'. rs = (Inr w, b') \<longrightarrow> related s b \<longrightarrow>
        (\<exists>v s'. doDecodeSync p s = Some (Inr v, s') \<and> sameShape v w \<and> related s' b'))"
    if "bufDoDecodeSync dp b = Some rs" for rs
    using that
  proof (induction dp b rs rule: bufDoDecodeSync.raw_induct [rotated 1, consumes 1])
    case (1 loop dp b rs)
    show ?case
    proof (intro impI allI)
      fix s w b'
      assume o: "sameOptions p dp" and rs: "rs = (Inr w, b')" and R: "related s b"
      obtain r1 b1 where st: "bufDecodeStep dp b = (r1, b1)" by (cases "bufDecodeStep dp b")
      with 1(2) rs obtain o1 where r1: "r1 = Inr o1"
        by (cases r1) auto
      from sim_decodeStep [OF rd o] R st [unfolded r1]
      obtain x s1 where x: "decodeStep p s = (Inr x, s1)"
        and V: "sameResult (rel_option sameShape) x s1 o1 b1"
        by (rule simulatesD)
      show "\<exists>v s'. doDecodeSync p s = Some (Inr v, s') \<and> sameShape v w \<and> related s' b'"
      proof (cases o1)
        case None
        with V have xn: "x = None" and R1: "related s1 b1" by (simp_all add: sameResult_def)
        from 1(2) st r1 None have "loop dp b1 = Some rs" by simp
        from 1(1) [OF this] o rs R1
        obtain v s' where "doDecodeSync p s1 = Some (Inr v, s')" "sameShape v w" "related s' b'"
          by blast
        moreover have "doDecodeSync p s = doDecodeSync p s1"
          using x xn by (subst doDecodeSync.simps) simp
        ultimately show ?thesis by auto
      next
        case (Some y)
        with V obtain v where xs: "x = Some v" "sameShape v y" and R1: "related s1 b1"
          by (cases x) (auto simp: sameResult_def)
        from 1(2) st r1 Some rs have "w = y" "b' = b1" by simp_all
        moreover have "doDecodeSync p s = Some (Inr v, s1)"
          using x xs by (subst doDecodeSync.simps) simp
        ultimately show ?thesis using xs R1 by auto
      qed
    qed
  qed
  from this [OF run] o R show ?thesis by blast
qed

lemma bufDoDecodeSync_if:
  "bufDoDecodeSync p st =
     (if fst (bufDecodeStep p st) = Inr None then bufDoDecodeSync p (snd (bufDecodeStep p st))
      else Some (case fst (bufDecodeStep p st) of
                   Inl e \<Rightarrow> Inl e
                 | Inr r \<Rightarrow> Inr (case r of Some object \<Rightarrow> object | None \<Rightarrow> JUndefined),
                 snd (bufDecodeStep p st)))"
  by (subst bufDoDecodeSync.simps) (auto split: prod.splits sum.splits option.splits)

lemmas buf_eval_defs = bufDoDecodeSync_if bufDecode_def bufDecodeStep_def bufDecodeHead_def
  bufReadHeadByte_def bufReadUint_def bufReadInt_def bufReadBytes_def bufComplete_def
  bufPropagateStack_def bufUintOf_def bufIntOf_def bufStrOfLength_def bufBinOfSize_def
  bufMapOfSize_def bufArrayOfSize_def bufPushMapState_def bufPushArrayState_def bufExtOfSize_def
  defaultDecoderParams_def

text \<open>
  What the two decoders share. Let the buffer-resident decoder decode a buffer to a
  value, the buffer being no longer than twice the initial capacity of the scratch
  buffer, so that no read asks for more. Then the stream decoder with the same options,
  whose pull source delivers the bytes of the buffer split into non-empty chunks at
  arbitrary boundaries (one byte per pull included), returns a value of the same shape
  and leaves no chunk behind: the two results are identical up to the contents of
  binaries.
\<close>

lemma same_shape_within_capacity:
  assumes "read p = Callback chunkRead" and "sameOptions p dp"
    and "bufDecode dp buffer = Some (Inr w)"
    and "concat chunks = buffer" and "[] \<notin> set chunks"
    and "length buffer \<le> 2 * DEFAULT_INITIAL_BUFFER_SIZE"
  shows "\<exists>v s'. decodeStream p chunks = Some (Inr v, s') \<and> sameShape v w \<and> source s' = []"
proof -
  let ?b = "\<lparr>bufHeadByte = HEAD_BYTE_REQUIRED, bufBytes = buffer, bufPos = 0, bufStack = []\<rparr>"
  let ?s = "reinitializeState (newStreamDecoder chunks)"
  from assms(3) obtain b' where run: "bufDoDecodeSync dp ?b = Some (Inr w, b')"
    and all: "\<not> bufPos b' < length (bufBytes b')"
    by (auto simp: bufDecode_def split: option.splits prod.splits sum.splits if_splits)
  have "related ?s ?b"
    using assms(4-6) by (simp add: related_def reinitializeState_def newStreamDecoder_def)
  from sim_doDecodeSync [OF assms(1,2) run this]
  obtain v s' where v: "doDecodeSync p ?s = Some (Inr v, s')" "sameShape v w" "related s' b'"
    by blast
  from v(3) all have "source s' = []"
    by (cases "source s'") (auto simp: related_def)
  with v show ?thesis by (simp add: decodeStream_def decode_def)
qed

text \<open>
  For example the map \<open>{"a": 1}\<close>, the bytes \<open>81 a1 61 01\<close>, pulled one byte at a time.
\<close>

lemma same_shape_within_capacity_example:
  "\<exists>v s'. decodeStream (defaultParams (Callback chunkRead)) [[0x81], [0xa1], [0x61], [0x01]] =
       Some (Inr v, s') \<and>
     sameShape v (JObject [(JString ''a'', JNumber (Integer 1))]) \<and> source s' = []"
proof -
  have 1: "sameOptions (defaultParams (Callback chunkRead)) defaultDecoderParams"
    by (simp add: sameOptions_def defaultParams_def defaultDecoderParams_def sameOutcome_def)
  have 2: "bufDecode defaultDecoderParams [0x81, 0xa1, 0x61, 0x01] =
     Some (Inr (JObject [(JString ''a'', JNumber (Integer 1))]))"
    by (simp add: buf_eval_defs eval_defs)
  from same_shape_within_capacity [of "defaultParams (Callback chunkRead)" defaultDecoderParams
      "[0x81, 0xa1, 0x61, 0x01]" "JObject [(JString ''a'', JNumber (Integer 1))]"
      "[[0x81], [0xa1], [0x61], [0x01]]"] 1 2
  show ?thesis by (simp add: defaultParams_def DEFAULT_INITIAL_BUFFER_SIZE_def)
qed

text \<open>
  Claim C2 says that the buffer-resident path and the streaming path, fed the same bytes
  in chunks, produce identical results. For the bytes \<open>92 c4 01 41 00\<close>, an array of
  the binary \<open>0x41\<close> and the number 0, pulled one byte at a time, they do not: the
  buffer-resident decoder returns the binary \<open>0x41\<close>, and the stream decoder returns
  a view of the first byte of its scratch buffer, which the read of the head byte
  \<open>0x00\<close> has overwritten by the time \<open>decodeStream\<close> returns, so that the binary
  reads \<open>0x00\<close>.
\<close>

theorem binary_overwritten_in_stream:
  "bufDecode defaultDecoderParams [0x92, 0xc4, 0x01, 0x41, 0x00] =
     Some (Inr (JArray [JUint8Array [0x41], JNumber (Integer 0)]))
   \<and> decodeStream (defaultParams (Callback chunkRead)) [[0x92], [0xc4], [0x01], [0x41], [0x00]] =
     Some (Inr (JArray [JUint8Array (0, 1), JNumber (Integer 0)]),
           \<lparr>headByte = - 1, bytes = 0 # replicate 2047 0, retired = [], stack = [], source = []\<rparr>)
   \<and> viewBytes \<lparr>headByte = - 1, bytes = 0 # replicate 2047 0, retired = [], stack = [],
        source = [] :: byte list list\<rparr> (0, 1) = [0x00]"
  by (simp add: buf_eval_defs eval_defs decodeStream_def decode_def reinitializeState_def
      chunkRead_def)

subsection \<open>The round trip through the encoder and the buffer-resident decoder\<close>

declare encodeValue.simps [simp del]

subsection \<open>Big-endian numbers\<close>

lemma beNat_snoc: "beNat (xs @ [b]) = beNat xs * 256 + unat b"
  by (simp add: beNat_def)

lemma length_beBytes [simp]: "length (beBytes k n) = k"
  by (induction k arbitrary: n) auto

lemma beNat_beBytes: "n < 256 ^ k \<Longrightarrow> beNat (beBytes k n) = n"
proof (induction k arbitrary: n)
  case 0
  then show ?case by (simp add: beNat_def)
next
  case (Suc k)
  then have "n div 256 < 256 ^ k"
    by (simp add: less_mult_imp_div_less mult.commute)
  with Suc.IH have "beNat (beBytes k (n div 256)) = n div 256" by simp
  then show ?case
    by (simp add: beNat_snoc unat_of_nat)
qed

lemma uint_byte_of_int: "0 \<le> i \<Longrightarrow> i < 256 \<Longrightarrow> uint (of_int i :: byte) = i"
  by (simp add: uint_word_of_int)

lemma uint_byte_of_nat: "n < 256 \<Longrightarrow> uint (of_nat n :: byte) = int n"
  using uint_byte_of_int [of "int n"] by simp

lemma uint_byte_of_neg:
  assumes "- 256 \<le> i" "i < 0"
  shows "uint (of_int i :: byte) = i + 256"
proof -
  have "(i + 256) mod 256 = i + 256" using assms by (intro mod_pos_pos_trivial) simp_all
  then have "i mod 256 = i + 256" by simp
  then show ?thesis by (simp add: uint_word_of_int)
qed

subsection \<open>Reading from a buffer\<close>

lemma bufReadBytes_at:
  "length bs = n \<Longrightarrow>
     bufReadBytes n (atHead hb pre (bs @ xs) stk) = (Inr bs, atHead hb (pre @ bs) xs stk)"
  by (simp add: bufReadBytes_def atHead_def)

lemma bufReadUint_at:
  "n < 256 ^ k \<Longrightarrow>
     bufReadUint k (atHead hb pre (beBytes k n @ xs) stk) =
       (Inr n, atHead hb (pre @ beBytes k n) xs stk)"
  by (simp add: bufReadUint_def bnd_def ret_def bufReadBytes_at beNat_beBytes)

lemma bufReadInt_at:
  "n < 256 ^ k \<Longrightarrow>
     bufReadInt k (atHead hb pre (beBytes k n @ xs) stk) =
       (Inr (toSigned (8 * k) n), atHead hb (pre @ beBytes k n) xs stk)"
  by (simp add: bufReadInt_def bnd_def ret_def bufReadBytes_at beNat_beBytes)

lemma bufReadHeadByte_at:
  "bufReadHeadByte (atHead HEAD_BYTE_REQUIRED pre (h # xs) stk) =
     (Inr (int (unat h)), atHead (int (unat h)) (pre @ [h]) xs stk)"
  using bufReadBytes_at [of "[h]" 1 HEAD_BYTE_REQUIRED pre xs stk]
  by (simp add: bufReadHeadByte_def bufReadUint_def bnd_def ret_def beNat_def atHead_def)

lemma bufComplete_at:
  "bufComplete (atHead hb pre xs stk) = (Inr (), atHead HEAD_BYTE_REQUIRED pre xs stk)"
  by (simp add: bufComplete_def atHead_def)

lemma bufPropagateStack_at:
  "bufPropagateStack v (atHead hb pre xs stk) =
     (case propagate v stk of (r, stk') \<Rightarrow> (r, atHead hb pre xs stk'))"
  by (simp add: bufPropagateStack_def atHead_def split: prod.splits)

subsection \<open>One value, one turn of the loop\<close>

lemma loop_value:
  assumes "bufDecodeHead dp (int (unat h)) (atHead (int (unat h)) (pre @ [h]) (body @ rest) stk) =
     (Inr (Some v), atHead (int (unat h)) (pre @ h # body) rest stk)"
  shows "bufDoDecodeSync dp (atHead HEAD_BYTE_REQUIRED pre (h # body @ rest) stk) =
     finish dp v (pre @ h # body) rest stk"
  using assms
  by (subst bufDoDecodeSync.simps)
     (simp add: bufDecodeStep_def bnd_def bufReadHeadByte_at bufComplete_at bufPropagateStack_at
        finish_def split: prod.splits sum.splits option.splits)

lemma loop_push:
  assumes "bufDecodeHead dp (int (unat h)) (atHead (int (unat h)) (pre @ [h]) (body @ rest) stk) =
     (Inr None, atHead HEAD_BYTE_REQUIRED (pre @ h # body) rest stk')"
  shows "bufDoDecodeSync dp (atHead HEAD_BYTE_REQUIRED pre (h # body @ rest) stk) =
     bufDoDecodeSync dp (atHead HEAD_BYTE_REQUIRED (pre @ h # body) rest stk')"
  using assms
  by (subst bufDoDecodeSync.simps)
     (simp add: bufDecodeStep_def bnd_def ret_def bufReadHeadByte_at)

declare beBytes.simps [simp del]

subsection \<open>The header-byte table\<close>

lemma head_fixed:
  "bufDecodeHead dp 0xc0 = ret (Some JNull)"
  "bufDecodeHead dp 0xc2 = ret (Some (JBoolean False))"
  "bufDecodeHead dp 0xc3 = ret (Some (JBoolean True))"
  "bufDecodeHead dp 0xcb = bnd (bufReadUint 8) (\<lambda>u. ret (Some (JNumber (Float64 (of_nat u)))))"
  "bufDecodeHead dp 0xcc = bufUintOf 1"
  "bufDecodeHead dp 0xcd = bufUintOf 2"
  "bufDecodeHead dp 0xce = bufUintOf 4"
  "bufDecodeHead dp 0xcf = bufUintOf 8"
  "bufDecodeHead dp 0xd0 = bufIntOf 1"
  "bufDecodeHead dp 0xd1 = bufIntOf 2"
  "bufDecodeHead dp 0xd2 = bufIntOf 4"
  "bufDecodeHead dp 0xd3 = bufIntOf 8"
  "bufDecodeHead dp 0xd9 = bnd (bufReadUint 1) (bufStrOfLength dp)"
  "bufDecodeHead dp 0xda = bnd (bufReadUint 2) (bufStrOfLength dp)"
  "bufDecodeHead dp 0xdb = bnd (bufReadUint 4) (bufStrOfLength dp)"
  "bufDecodeHead dp 0xdc = bnd (bufReadUint 2) (bufArrayOfSize dp)"
  "bufDecodeHead dp 0xdd = bnd (bufReadUint 4) (bufArrayOfSize dp)"
  "bufDecodeHead dp 0xde = bnd (bufReadUint 2) (bufMapOfSize dp)"
  "bufDecodeHead dp 0xdf = bnd (bufReadUint 4) (bufMapOfSize dp)"
  "bufDecodeHead dp 0xc4 = bnd (bufReadUint 1) (bufBinOfSize dp)"
  "bufDecodeHead dp 0xc5 = bnd (bufReadUint 2) (bufBinOfSize dp)"
  "bufDecodeHead dp 0xc6 = bnd (bufReadUint 4) (bufBinOfSize dp)"
  by (simp_all add: bufDecodeHead_def)

lemma head_ranges:
  "0 \<le> hb \<Longrightarrow> hb < 0x80 \<Longrightarrow> bufDecodeHead dp hb = ret (Some (JNumber (Integer hb)))"
  "0x80 \<le> hb \<Longrightarrow> hb < 0x90 \<Longrightarrow> bufDecodeHead dp hb = bufMapOfSize dp (nat (hb - 0x80))"
  "0x90 \<le> hb \<Longrightarrow> hb < 0xa0 \<Longrightarrow> bufDecodeHead dp hb = bufArrayOfSize dp (nat (hb - 0x90))"
  "0xa0 \<le> hb \<Longrightarrow> hb < 0xc0 \<Longrightarrow> bufDecodeHead dp hb = bufStrOfLength dp (nat (hb - 0xa0))"
  "0xe0 \<le> hb \<Longrightarrow> bufDecodeHead dp hb = ret (Some (JNumber (Integer (hb - 0x100))))"
  by (simp_all add: bufDecodeHead_def)

lemma head_bytes:
  "int (unat (0xc0 :: byte)) = 0xc0" "int (unat (0xc2 :: byte)) = 0xc2"
  "int (unat (0xc3 :: byte)) = 0xc3" "int (unat (0xcb :: byte)) = 0xcb"
  "int (unat (0xcc :: byte)) = 0xcc" "int (unat (0xcd :: byte)) = 0xcd"
  "int (unat (0xce :: byte)) = 0xce" "int (unat (0xcf :: byte)) = 0xcf"
  "int (unat (0xd0 :: byte)) = 0xd0" "int (unat (0xd1 :: byte)) = 0xd1"
  "int (unat (0xd2 :: byte)) = 0xd2" "int (unat (0xd3 :: byte)) = 0xd3"
  "int (unat (0xd9 :: byte)) = 0xd9" "int (unat (0xda :: byte)) = 0xda"
  "int (unat (0xdb :: byte)) = 0xdb" "int (unat (0xdc :: byte)) = 0xdc"
  "int (unat (0xdd :: byte)) = 0xdd" "int (unat (0xde :: byte)) = 0xde"
  "int (unat (0xdf :: byte)) = 0xdf" "int (unat (0xc4 :: byte)) = 0xc4"
  "int (unat (0xc5 :: byte)) = 0xc5" "int (unat (0xc6 :: byte)) = 0xc6"
  by simp_all

subsection \<open>The branches on a buffer\<close>

lemma bnd_readUint_at:
  "n < 256 ^ k \<Longrightarrow>
     bnd (bufReadUint k) f (atHead hb pre (beBytes k n @ xs) stk) =
       f n (atHead hb (pre @ beBytes k n) xs stk)"
  by (simp add: bnd_def bufReadUint_at)

lemma prefixed_at:
  assumes "n < 256 ^ k" and "f n (atHead hb (pre @ beBytes k n) ys stk) = r"
  shows "bnd (bufReadUint k) f (atHead hb pre (beBytes k n @ ys) stk) = r"
  using assms by (simp add: bnd_readUint_at)

lemma bufUintOf_at:
  "n < 256 ^ k \<Longrightarrow>
     bufUintOf k (atHead hb pre (beBytes k n @ xs) stk) =
       (Inr (Some (JNumber (Integer (int n)))), atHead hb (pre @ beBytes k n) xs stk)"
  by (simp add: bufUintOf_def bnd_readUint_at ret_def)

lemma bufIntOf_at:
  "n < 256 ^ k \<Longrightarrow> toSigned (8 * k) n = i \<Longrightarrow>
     bufIntOf k (atHead hb pre (beBytes k n @ xs) stk) =
       (Inr (Some (JNumber (Integer i))), atHead hb (pre @ beBytes k n) xs stk)"
  by (simp add: bufIntOf_def bnd_def bufReadInt_at ret_def)

lemma float64_at:
  "bnd (bufReadUint 8) (\<lambda>u. ret (Some (JNumber (Float64 (of_nat u)))))
       (atHead hb pre (beBytes 8 (unat w) @ xs) stk) =
     (Inr (Some (JNumber (Float64 w))), atHead hb (pre @ beBytes 8 (unat w)) xs stk)"
proof -
  have "unat w < 2 ^ 64" using unsigned_less [of w] by simp
  then have "unat w < 256 ^ 8" by simp
  then show ?thesis by (simp add: bnd_readUint_at ret_def)
qed

lemma bufStrOfLength_at:
  "length bs = n \<Longrightarrow> n \<le> bufMaxStrLength dp \<Longrightarrow>
     bufStrOfLength dp n (atHead hb pre (bs @ xs) stk) =
       (Inr (Some (JString (bufUtf8Decode dp bs))), atHead hb (pre @ bs) xs stk)"
  by (simp add: bufStrOfLength_def bnd_def ret_def bufReadBytes_at)

lemma bufBinOfSize_at:
  "length bs = n \<Longrightarrow> n \<le> bufMaxBinLength dp \<Longrightarrow>
     bufBinOfSize dp n (atHead hb pre (bs @ xs) stk) =
       (Inr (Some (JUint8Array bs)), atHead hb (pre @ bs) xs stk)"
  by (simp add: bufBinOfSize_def bnd_def ret_def bufReadBytes_at)

lemma bufArrayOfSize_at:
  "n \<le> bufMaxArrayLength dp \<Longrightarrow>
     bufArrayOfSize dp n (atHead hb pre xs stk) =
       (if n = 0 then (Inr (Some (JArray [])), atHead hb pre xs stk)
        else (Inr None, atHead HEAD_BYTE_REQUIRED pre xs
                (StackArrayState n (replicate n JUndefined) 0 # stk)))"
  by (simp add: bufArrayOfSize_def bufPushArrayState_def bufComplete_def bnd_def ret_def
      atHead_def)

lemma bufMapOfSize_at:
  "n \<le> bufMaxMapLength dp \<Longrightarrow>
     bufMapOfSize dp n (atHead hb pre xs stk) =
       (if n = 0 then (Inr (Some (JObject [])), atHead hb pre xs stk)
        else (Inr None, atHead HEAD_BYTE_REQUIRED pre xs
                (StackMapState STATE_MAP_KEY n None 0 [] # stk)))"
  by (simp add: bufMapOfSize_def bufPushMapState_def bufComplete_def bnd_def ret_def
      atHead_def)

subsection \<open>What the encoder writes, read back\<close>

lemma head_integer:
  assumes "encodeInteger i = Inr (h # lb)"
  shows "bufDecodeHead dp (int (unat h)) (atHead hb pre (lb @ xs) stk) =
     (Inr (Some (JNumber (Integer i))), atHead hb (pre @ lb) xs stk)"
proof -
  consider
      (posfix) "0 \<le> i" "i < 128" "h = of_int i" "lb = []"
    | (u8) "0 \<le> i" "i < 256" "h = 0xcc" "lb = beBytes 1 (nat i)"
    | (u16) "0 \<le> i" "i < 65536" "h = 0xcd" "lb = beBytes 2 (nat i)"
    | (u32) "0 \<le> i" "i < 4294967296" "h = 0xce" "lb = beBytes 4 (nat i)"
    | (u64) "0 \<le> i" "i < 18446744073709551616" "h = 0xcf" "lb = beBytes 8 (nat i)"
    | (negfix) "- 32 \<le> i" "i < 0" "h = of_int i" "lb = []"
    | (i8) "- 128 \<le> i" "i < - 32" "h = 0xd0" "lb = beBytes 1 (nat (i + 256))"
    | (i16) "- 32768 \<le> i" "i < - 128" "h = 0xd1" "lb = beBytes 2 (nat (i + 65536))"
    | (i32) "- 2147483648 \<le> i" "i < - 32768" "h = 0xd2" "lb = beBytes 4 (nat (i + 4294967296))"
    | (i64) "- 9223372036854775808 \<le> i" "i < - 2147483648" "h = 0xd3"
        "lb = beBytes 8 (nat (i + 18446744073709551616))"
    using assms by (auto simp: encodeInteger_def split: if_splits)
  then show ?thesis
  proof cases
    case posfix
    then have hb: "int (unat h) = i" by (simp add: uint_byte_of_int)
    have "bufDecodeHead dp i = ret (Some (JNumber (Integer i)))"
      using posfix(1,2) by (intro head_ranges) simp_all
    then show ?thesis unfolding hb by (simp add: ret_def posfix(4))
  next
    case u8
    then have "nat i < 256 ^ 1" by simp
    from bufUintOf_at [OF this] u8 show ?thesis by (simp add: head_bytes head_fixed)
  next
    case u16
    then have "nat i < 256 ^ 2" by simp
    from bufUintOf_at [OF this] u16 show ?thesis by (simp add: head_bytes head_fixed)
  next
    case u32
    then have "nat i < 256 ^ 4" by simp
    from bufUintOf_at [OF this] u32 show ?thesis by (simp add: head_bytes head_fixed)
  next
    case u64
    then have "nat i < 256 ^ 8" by simp
    from bufUintOf_at [OF this] u64 show ?thesis by (simp add: head_bytes head_fixed)
  next
    case negfix
    then have hb: "int (unat h) = i + 256" by (simp add: uint_byte_of_neg)
    have "bufDecodeHead dp (i + 256) = ret (Some (JNumber (Integer (i + 256 - 0x100))))"
      using negfix(1,2) by (intro head_ranges) simp_all
    then show ?thesis unfolding hb by (simp add: ret_def negfix(4))
  next
    case i8
    then have "nat (i + 256) < 256 ^ 1" "toSigned (8 * 1) (nat (i + 256)) = i"
      by (simp_all add: toSigned_def)
    from bufIntOf_at [OF this] i8 show ?thesis by (simp add: head_bytes head_fixed)
  next
    case i16
    then have "nat (i + 65536) < 256 ^ 2" "toSigned (8 * 2) (nat (i + 65536)) = i"
      by (simp_all add: toSigned_def)
    from bufIntOf_at [OF this] i16 show ?thesis by (simp add: head_bytes head_fixed)
  next
    case i32
    then have "nat (i + 4294967296) < 256 ^ 4" "toSigned (8 * 4) (nat (i + 4294967296)) = i"
      by (simp_all add: toSigned_def)
    from bufIntOf_at [OF this] i32 show ?thesis by (simp add: head_bytes head_fixed)
  next
    case i64
    then have "nat (i + 18446744073709551616) < 256 ^ 8"
      "toSigned (8 * 8) (nat (i + 18446744073709551616)) = i"
      by (simp_all add: toSigned_def)
    from bufIntOf_at [OF this] i64 show ?thesis by (simp add: head_bytes head_fixed)
  qed
qed

lemma head_str:
  assumes "strHeader n = Inr (h # lb)" and "length bs = n" and "UINT32_MAX \<le> bufMaxStrLength dp"
  shows "bufDecodeHead dp (int (unat h)) (atHead hb pre (lb @ bs @ xs) stk) =
     (Inr (Some (JString (bufUtf8Decode dp bs))), atHead hb (pre @ lb @ bs) xs stk)"
proof -
  consider
      (inline) "n < 32" "h = of_nat (0xa0 + n)" "lb = []"
    | (s8) "n < 256" "h = 0xd9" "lb = beBytes 1 n"
    | (s16) "n < 65536" "h = 0xda" "lb = beBytes 2 n"
    | (s32) "n < 4294967296" "h = 0xdb" "lb = beBytes 4 n"
    using assms(1) by (auto simp: strHeader_def split: if_splits)
  then show ?thesis
  proof cases
    case inline
    have hb: "int (unat h) = 0xa0 + int n"
      using inline uint_byte_of_nat [of "0xa0 + n"] by simp
    have n: "n \<le> bufMaxStrLength dp" using inline assms(3) by (simp add: UINT32_MAX_def)
    have "bufDecodeHead dp (0xa0 + int n) = bufStrOfLength dp (nat (0xa0 + int n - 0xa0))"
      using inline by (intro head_ranges) simp_all
    then show ?thesis
      unfolding hb by (simp add: inline(3) bufStrOfLength_at [OF assms(2) n])
  next
    case s8
    then have n: "n < 256 ^ 1" "n \<le> bufMaxStrLength dp" using assms(3) by (simp_all add: UINT32_MAX_def)
    show ?thesis
      unfolding s8(2,3) head_bytes head_fixed
      by (rule prefixed_at [OF n(1)]) (simp add: bufStrOfLength_at [OF assms(2) n(2)])
  next
    case s16
    then have n: "n < 256 ^ 2" "n \<le> bufMaxStrLength dp" using assms(3) by (simp_all add: UINT32_MAX_def)
    show ?thesis
      unfolding s16(2,3) head_bytes head_fixed
      by (rule prefixed_at [OF n(1)]) (simp add: bufStrOfLength_at [OF assms(2) n(2)])
  next
    case s32
    then have n: "n < 256 ^ 4" "n \<le> bufMaxStrLength dp" using assms(3) by (simp_all add: UINT32_MAX_def)
    show ?thesis
      unfolding s32(2,3) head_bytes head_fixed
      by (rule prefixed_at [OF n(1)]) (simp add: bufStrOfLength_at [OF assms(2) n(2)])
  qed
qed

lemma head_bin:
  assumes "binHeader n = Inr (h # lb)" and "length bs = n" and "UINT32_MAX \<le> bufMaxBinLength dp"
  shows "bufDecodeHead dp (int (unat h)) (atHead hb pre (lb @ bs @ xs) stk) =
     (Inr (Some (JUint8Array bs)), atHead hb (pre @ lb @ bs) xs stk)"
proof -
  consider
      (b8) "n < 256" "h = 0xc4" "lb = beBytes 1 n"
    | (b16) "n < 65536" "h = 0xc5" "lb = beBytes 2 n"
    | (b32) "n < 4294967296" "h = 0xc6" "lb = beBytes 4 n"
    using assms(1) by (auto simp: binHeader_def split: if_splits)
  then show ?thesis
  proof cases
    case b8
    then have n: "n < 256 ^ 1" "n \<le> bufMaxBinLength dp" using assms(3) by (simp_all add: UINT32_MAX_def)
    show ?thesis
      unfolding b8(2,3) head_bytes head_fixed
      by (rule prefixed_at [OF n(1)]) (simp add: bufBinOfSize_at [OF assms(2) n(2)])
  next
    case b16
    then have n: "n < 256 ^ 2" "n \<le> bufMaxBinLength dp" using assms(3) by (simp_all add: UINT32_MAX_def)
    show ?thesis
      unfolding b16(2,3) head_bytes head_fixed
      by (rule prefixed_at [OF n(1)]) (simp add: bufBinOfSize_at [OF assms(2) n(2)])
  next
    case b32
    then have n: "n < 256 ^ 4" "n \<le> bufMaxBinLength dp" using assms(3) by (simp_all add: UINT32_MAX_def)
    show ?thesis
      unfolding b32(2,3) head_bytes head_fixed
      by (rule prefixed_at [OF n(1)]) (simp add: bufBinOfSize_at [OF assms(2) n(2)])
  qed
qed

lemma head_array:
  assumes "arrayHeader n = Inr (h # lb)" and "UINT32_MAX \<le> bufMaxArrayLength dp"
  shows "bufDecodeHead dp (int (unat h)) (atHead hb pre (lb @ xs) stk) =
     (if n = 0 then (Inr (Some (JArray [])), atHead hb (pre @ lb) xs stk)
      else (Inr None, atHead HEAD_BYTE_REQUIRED (pre @ lb) xs
              (StackArrayState n (replicate n JUndefined) 0 # stk)))"
proof -
  consider
      (inline) "n < 16" "h = of_nat (0x90 + n)" "lb = []"
    | (a16) "n < 65536" "h = 0xdc" "lb = beBytes 2 n"
    | (a32) "n < 4294967296" "h = 0xdd" "lb = beBytes 4 n"
    using assms(1) by (auto simp: arrayHeader_def split: if_splits)
  then show ?thesis
  proof cases
    case inline
    have hb: "int (unat h) = 0x90 + int n"
      using inline uint_byte_of_nat [of "0x90 + n"] by simp
    have n: "n \<le> bufMaxArrayLength dp" using inline assms(2) by (simp add: UINT32_MAX_def)
    have "bufDecodeHead dp (0x90 + int n) = bufArrayOfSize dp (nat (0x90 + int n - 0x90))"
      using inline by (intro head_ranges) simp_all
    then show ?thesis
      unfolding hb by (simp add: inline(3) bufArrayOfSize_at [OF n])
  next
    case a16
    then have n: "n < 256 ^ 2" "n \<le> bufMaxArrayLength dp" using assms(2) by (simp_all add: UINT32_MAX_def)
    show ?thesis
      unfolding a16(2,3) head_bytes head_fixed
      by (rule prefixed_at [OF n(1)]) (simp add: bufArrayOfSize_at [OF n(2)])
  next
    case a32
    then have n: "n < 256 ^ 4" "n \<le> bufMaxArrayLength dp" using assms(2) by (simp_all add: UINT32_MAX_def)
    show ?thesis
      unfolding a32(2,3) head_bytes head_fixed
      by (rule prefixed_at [OF n(1)]) (simp add: bufArrayOfSize_at [OF n(2)])
  qed
qed

lemma head_map:
  assumes "mapHeader n = Inr (h # lb)" and "UINT32_MAX \<le> bufMaxMapLength dp"
  shows "bufDecodeHead dp (int (unat h)) (atHead hb pre (lb @ xs) stk) =
     (if n = 0 then (Inr (Some (JObject [])), atHead hb (pre @ lb) xs stk)
      else (Inr None, atHead HEAD_BYTE_REQUIRED (pre @ lb) xs
              (StackMapState STATE_MAP_KEY n None 0 [] # stk)))"
proof -
  consider
      (inline) "n < 16" "h = of_nat (0x80 + n)" "lb = []"
    | (m16) "n < 65536" "h = 0xde" "lb = beBytes 2 n"
    | (m32) "n < 4294967296" "h = 0xdf" "lb = beBytes 4 n"
    using assms(1) by (auto simp: mapHeader_def split: if_splits)
  then show ?thesis
  proof cases
    case inline
    have hb: "int (unat h) = 0x80 + int n"
      using inline uint_byte_of_nat [of "0x80 + n"] by simp
    have n: "n \<le> bufMaxMapLength dp" using inline assms(2) by (simp add: UINT32_MAX_def)
    have "bufDecodeHead dp (0x80 + int n) = bufMapOfSize dp (nat (0x80 + int n - 0x80))"
      using inline by (intro head_ranges) simp_all
    then show ?thesis
      unfolding hb by (simp add: inline(3) bufMapOfSize_at [OF n])
  next
    case m16
    then have n: "n < 256 ^ 2" "n \<le> bufMaxMapLength dp" using assms(2) by (simp_all add: UINT32_MAX_def)
    show ?thesis
      unfolding m16(2,3) head_bytes head_fixed
      by (rule prefixed_at [OF n(1)]) (simp add: bufMapOfSize_at [OF n(2)])
  next
    case m32
    then have n: "n < 256 ^ 4" "n \<le> bufMaxMapLength dp" using assms(2) by (simp_all add: UINT32_MAX_def)
    show ?thesis
      unfolding m32(2,3) head_bytes head_fixed
      by (rule prefixed_at [OF n(1)]) (simp add: bufMapOfSize_at [OF n(2)])
  qed
qed

subsection \<open>Elements and pairs\<close>

lemma withHeader_Inr:
  assumes "withHeader a b = Inr bs"
  obtains as' bs' where "a = Inr as'" "b = Inr bs'" "bs = as' @ bs'"
  using assms by (auto simp: withHeader_def split: sum.splits)

lemma recordSet_fresh: "k \<notin> fst ` set m \<Longrightarrow> recordSet m k v = m @ [(k, v)]"
  by (induction m) auto

lemma array_elements:
  assumes IH: "\<And>x bs pre rest stk. x \<in> set ys \<Longrightarrow> enc x = Inr bs \<Longrightarrow>
      bufDoDecodeSync dp (atHead HEAD_BYTE_REQUIRED pre (bs @ rest) stk) =
        finish dp x (pre @ bs) rest stk"
  shows "collect (map enc ys) = Inr body \<Longrightarrow> ys \<noteq> [] \<Longrightarrow> length acc + length ys = n \<Longrightarrow>
     bufDoDecodeSync dp (atHead HEAD_BYTE_REQUIRED pre (body @ rest)
        (StackArrayState n (acc @ replicate (length ys) JUndefined) (length acc) # stk)) =
       finish dp (JArray (acc @ ys)) (pre @ body) rest stk"
  using IH
proof (induction ys arbitrary: acc pre body)
  case Nil
  then show ?case by simp
next
  case (Cons y ys)
  from Cons.prems(1) obtain b1 body' where b: "enc y = Inr b1" "collect (map enc ys) = Inr body'"
    "body = b1 @ body'"
    by (auto elim!: withHeader_Inr)
  let ?fr = "StackArrayState n (acc @ replicate (length (y # ys)) JUndefined) (length acc)"
  have 1: "bufDoDecodeSync dp (atHead HEAD_BYTE_REQUIRED pre (b1 @ body' @ rest) (?fr # stk)) =
     finish dp y (pre @ b1) (body' @ rest) (?fr # stk)"
    by (rule Cons.prems(4) [OF _ b(1)]) simp
  have set: "arraySet (acc @ replicate (length (y # ys)) JUndefined) (length acc) y =
     (acc @ [y]) @ replicate (length ys) JUndefined"
    by (simp add: arraySet_def list_update_append)
  show ?case
  proof (cases "ys = []")
    case True
    with b(2) have "body' = []" by simp
    with True Cons.prems(3) 1 set show ?thesis
      by (simp add: b(3) finish_def)
  next
    case False
    then have "length ys \<noteq> 0" by simp
    with Cons.prems(3) have n: "length acc + 1 \<noteq> n" by auto
    have 2: "finish dp y (pre @ b1) (body' @ rest) (?fr # stk) =
       bufDoDecodeSync dp (atHead HEAD_BYTE_REQUIRED (pre @ b1) (body' @ rest)
         (StackArrayState n ((acc @ [y]) @ replicate (length ys) JUndefined)
            (length (acc @ [y])) # stk))"
      using n set by (simp add: finish_def)
    have 3: "bufDoDecodeSync dp (atHead HEAD_BYTE_REQUIRED (pre @ b1) (body' @ rest)
         (StackArrayState n ((acc @ [y]) @ replicate (length ys) JUndefined)
            (length (acc @ [y])) # stk)) =
       finish dp (JArray ((acc @ [y]) @ ys)) ((pre @ b1) @ body') rest stk"
      using Cons.prems(3) Cons.prems(4)
      by (intro Cons.IH [OF b(2) False]) simp_all
    from 1 2 3 show ?thesis by (simp add: b(3))
  qed
qed

lemma map_pairs:
  assumes IHk: "\<And>kv bs pre rest stk. kv \<in> set ys \<Longrightarrow> enc (fst kv) = Inr bs \<Longrightarrow>
      bufDoDecodeSync dp (atHead HEAD_BYTE_REQUIRED pre (bs @ rest) stk) =
        finish dp (fst kv) (pre @ bs) rest stk"
    and IHv: "\<And>kv bs pre rest stk. kv \<in> set ys \<Longrightarrow> enc (snd kv) = Inr bs \<Longrightarrow>
      bufDoDecodeSync dp (atHead HEAD_BYTE_REQUIRED pre (bs @ rest) stk) =
        finish dp (snd kv) (pre @ bs) rest stk"
    and keys: "\<And>kv. kv \<in> set ys \<Longrightarrow>
      isValidMapKeyType (fst kv) \<and> fst kv \<noteq> JString ''__proto__''"
  shows "collect (map (\<lambda>kv. withHeader (enc (fst kv)) (enc (snd kv))) ys) = Inr body \<Longrightarrow>
     ys \<noteq> [] \<Longrightarrow> length acc + length ys = n \<Longrightarrow> distinct (map fst (acc @ ys)) \<Longrightarrow>
     bufDoDecodeSync dp (atHead HEAD_BYTE_REQUIRED pre (body @ rest)
        (StackMapState STATE_MAP_KEY n None (length acc) acc # stk)) =
       finish dp (JObject (acc @ ys)) (pre @ body) rest stk"
  using IHk IHv keys
proof (induction ys arbitrary: acc pre body)
  case Nil
  then show ?case by simp
next
  case (Cons kv ys)
  obtain k v where kv: "kv = (k, v)" by (cases kv)
  from Cons.prems(1) obtain bk bv body' where b: "enc k = Inr bk" "enc v = Inr bv"
    "collect (map (\<lambda>kv. withHeader (enc (fst kv)) (enc (snd kv))) ys) = Inr body'"
    "body = bk @ bv @ body'"
    by (auto simp: kv elim!: withHeader_Inr)
  from Cons.prems(7) [of kv] have key: "isValidMapKeyType k" "k \<noteq> JString ''__proto__''"
    by (simp_all add: kv)
  from Cons.prems(4) have fresh: "k \<notin> fst ` set acc" by (auto simp: kv)
  let ?frk = "StackMapState STATE_MAP_KEY n None (length acc) acc"
  let ?frv = "StackMapState STATE_MAP_VALUE n (Some k) (length acc) acc"
  have 1: "bufDoDecodeSync dp (atHead HEAD_BYTE_REQUIRED pre (bk @ bv @ body' @ rest) (?frk # stk)) =
     finish dp k (pre @ bk) (bv @ body' @ rest) (?frk # stk)"
    using Cons.prems(5) [of kv bk] b(1) by (simp add: kv)
  have 2: "finish dp k (pre @ bk) (bv @ body' @ rest) (?frk # stk) =
     bufDoDecodeSync dp (atHead HEAD_BYTE_REQUIRED (pre @ bk) (bv @ body' @ rest) (?frv # stk))"
    using key by (simp add: finish_def)
  have 3: "bufDoDecodeSync dp (atHead HEAD_BYTE_REQUIRED (pre @ bk) (bv @ body' @ rest) (?frv # stk)) =
     finish dp v ((pre @ bk) @ bv) (body' @ rest) (?frv # stk)"
    using Cons.prems(6) [of kv bv] b(2) by (simp add: kv)
  have set: "recordSet acc (keyOf (Some k)) v = acc @ [(k, v)]"
    using fresh by (simp add: keyOf_def recordSet_fresh)
  show ?case
  proof (cases "ys = []")
    case True
    with b(3) have "body' = []" by simp
    with True Cons.prems(3) 1 2 3 set show ?thesis
      by (simp add: b(4) kv finish_def)
  next
    case False
    then have "length ys \<noteq> 0" by simp
    with Cons.prems(3) have n: "length acc + 1 \<noteq> n" by auto
    have 4: "finish dp v ((pre @ bk) @ bv) (body' @ rest) (?frv # stk) =
       bufDoDecodeSync dp (atHead HEAD_BYTE_REQUIRED ((pre @ bk) @ bv) (body' @ rest)
         (StackMapState STATE_MAP_KEY n None (length (acc @ [(k, v)])) (acc @ [(k, v)]) # stk))"
      using n set by (simp add: finish_def)
    have 5: "bufDoDecodeSync dp (atHead HEAD_BYTE_REQUIRED ((pre @ bk) @ bv) (body' @ rest)
         (StackMapState STATE_MAP_KEY n None (length (acc @ [(k, v)])) (acc @ [(k, v)]) # stk)) =
       finish dp (JObject ((acc @ [(k, v)]) @ ys)) (((pre @ bk) @ bv) @ body') rest stk"
      using Cons.prems(3,4,5,6,7)
      by (intro Cons.IH [OF b(3) False]) (simp_all add: kv)
    from 1 2 3 4 5 show ?thesis by (simp add: b(4) kv)
  qed
qed

subsection \<open>Values\<close>

lemma scalar_loop:
  assumes "bs = h # lb"
    and "bufDecodeHead dp (int (unat h)) (atHead (int (unat h)) (pre @ [h]) (lb @ rest) stk) =
       (Inr (Some v), atHead (int (unat h)) ((pre @ [h]) @ lb) rest stk)"
  shows "bufDoDecodeSync dp (atHead HEAD_BYTE_REQUIRED pre (bs @ rest) stk) =
     finish dp v (pre @ bs) rest stk"
  using loop_value [of dp h pre lb rest stk v] assms by simp

lemma headers_nonempty:
  "encodeInteger i = Inr bs \<Longrightarrow> \<exists>h lb. bs = h # lb"
  "strHeader n = Inr bs \<Longrightarrow> \<exists>h lb. bs = h # lb"
  "binHeader n = Inr bs \<Longrightarrow> \<exists>h lb. bs = h # lb"
  "arrayHeader n = Inr bs \<Longrightarrow> \<exists>h lb. bs = h # lb"
  "mapHeader n = Inr bs \<Longrightarrow> \<exists>h lb. bs = h # lb"
  by (auto simp: encodeInteger_def strHeader_def binHeader_def arrayHeader_def mapHeader_def
      split: if_splits)

lemma isString_key: "isString k \<Longrightarrow> supported k \<and> isValidMapKeyType k"
  by (cases k) (simp_all add: isValidMapKeyType_def)

lemma decode_encodeValue:
  assumes utf: "\<And>str. bufUtf8Decode dp (utf8Encode ep str) = str" and lim: "wideLimits dp"
  shows "supported v \<Longrightarrow> encodeValue ep d v = Inr bs \<Longrightarrow>
     bufDoDecodeSync dp (atHead HEAD_BYTE_REQUIRED pre (bs @ rest) stk) =
       finish dp v (pre @ bs) rest stk"
proof (induction v arbitrary: d bs pre rest stk)
  case JNull
  then have "bs = [0xc0]" by (simp add: encodeValue.simps [of ep d] split: if_splits)
  then show ?case
    by (intro scalar_loop [where h = "0xc0" and lb = "[]"])
       (simp_all add: head_bytes head_fixed ret_def)
next
  case JUndefined
  then show ?case by simp
next
  case (JBoolean b)
  then have "bs = [if b then 0xc3 else 0xc2]"
    by (simp add: encodeValue.simps [of ep d] split: if_splits)
  then show ?case
    by (intro scalar_loop [where h = "if b then 0xc3 else 0xc2" and lb = "[]"])
       (simp_all add: head_bytes head_fixed ret_def)
next
  case (JNumber n)
  show ?case
  proof (cases n)
    case (Integer i)
    with JNumber have e: "encodeInteger i = Inr bs"
      by (simp add: encodeValue.simps [of ep d] split: if_splits)
    then obtain h lb where bs: "bs = h # lb" using headers_nonempty(1) by blast
    show ?thesis
      unfolding Integer
      by (rule scalar_loop [OF bs]) (rule head_integer [OF e [unfolded bs]])
  next
    case (Float32 w)
    with JNumber show ?thesis by simp
  next
    case (Float64 w)
    with JNumber have bs: "bs = 0xcb # beBytes 8 (unat w)"
      by (simp add: encodeValue.simps [of ep d] split: if_splits)
    show ?thesis
      unfolding Float64
      by (rule scalar_loop [OF bs]) (simp add: head_bytes head_fixed float64_at)
  qed
next
  case (JString str)
  then obtain hs where hs: "strHeader (length (utf8Encode ep str)) = Inr hs"
    and bs: "bs = hs @ utf8Encode ep str"
    by (auto simp: encodeValue.simps [of ep d] split: if_splits elim!: withHeader_Inr)
  from hs obtain h lb where h: "hs = h # lb" using headers_nonempty(2) by blast
  from lim have l: "UINT32_MAX \<le> bufMaxStrLength dp" by (simp add: wideLimits_def)
  have "bufDoDecodeSync dp (atHead HEAD_BYTE_REQUIRED pre ((h # lb @ utf8Encode ep str) @ rest) stk) =
     finish dp (JString (bufUtf8Decode dp (utf8Encode ep str))) (pre @ h # lb @ utf8Encode ep str)
       rest stk"
    using head_str [OF hs [unfolded h] refl l, of "int (unat h)" "pre @ [h]" rest stk]
    by (intro scalar_loop [where h = h and lb = "lb @ utf8Encode ep str"]) simp_all
  then show ?case by (simp add: bs h utf)
next
  case (JUint8Array data)
  then obtain hs where hs: "binHeader (length data) = Inr hs" and bs: "bs = hs @ data"
    by (auto simp: encodeValue.simps [of ep d] split: if_splits elim!: withHeader_Inr)
  from hs obtain h lb where h: "hs = h # lb" using headers_nonempty(3) by blast
  from lim have l: "UINT32_MAX \<le> bufMaxBinLength dp" by (simp add: wideLimits_def)
  have "bufDoDecodeSync dp (atHead HEAD_BYTE_REQUIRED pre ((h # lb @ data) @ rest) stk) =
     finish dp (JUint8Array data) (pre @ h # lb @ data) rest stk"
    using head_bin [OF hs [unfolded h] refl l, of "int (unat h)" "pre @ [h]" rest stk]
    by (intro scalar_loop [where h = h and lb = "lb @ data"]) simp_all
  then show ?case by (simp add: bs h)
next
  case (JArray xs)
  from JArray.prems obtain hs body where hs: "arrayHeader (length xs) = Inr hs"
    and body: "collect (map (encodeValue ep (d + 1)) xs) = Inr body" and bs: "bs = hs @ body"
    by (auto simp: encodeValue.simps [of ep d] split: if_splits elim!: withHeader_Inr)
  from hs obtain h lb where h: "hs = h # lb" using headers_nonempty(4) by blast
  from lim have l: "UINT32_MAX \<le> bufMaxArrayLength dp" by (simp add: wideLimits_def)
  note hd = head_array [OF hs [unfolded h] l, of "int (unat h)" "pre @ [h]" "body @ rest" stk]
  show ?case
  proof (cases "xs = []")
    case True
    with body have "body = []" by simp
    with True hd show ?thesis
      unfolding bs h
      by (intro scalar_loop [where h = h and lb = lb]) simp_all
  next
    case False
    let ?fr = "StackArrayState (length xs) (replicate (length xs) JUndefined) 0"
    have "bufDoDecodeSync dp (atHead HEAD_BYTE_REQUIRED pre (h # (lb @ body) @ rest) stk) =
       bufDoDecodeSync dp (atHead HEAD_BYTE_REQUIRED (pre @ h # lb) (body @ rest) (?fr # stk))"
      using hd False loop_push [of dp h pre lb "body @ rest" stk "?fr # stk"] by simp
    also have "\<dots> = finish dp (JArray ([] @ xs)) ((pre @ h # lb) @ body) rest stk"
    proof -
      have IH: "bufDoDecodeSync dp (atHead HEAD_BYTE_REQUIRED pre' (bs' @ rest') stk') =
          finish dp x (pre' @ bs') rest' stk'"
        if "x \<in> set xs" "encodeValue ep (d + 1) x = Inr bs'" for x bs' pre' rest' stk'
        using that JArray.prems(1) by (intro JArray.IH) (auto simp: list_all_iff)
      from array_elements [where acc = "[]" and enc = "encodeValue ep (d + 1)", OF IH body False]
      show ?thesis by simp
    qed
    finally show ?thesis by (simp add: bs h)
  qed
next
  case (JObject kvs)
  from JObject.prems obtain hs body where hs: "mapHeader (length kvs) = Inr hs"
    and body: "collect (map (\<lambda>kv. withHeader (encodeValue ep (d + 1) (fst kv))
                                            (encodeValue ep (d + 1) (snd kv))) kvs) = Inr body"
    and bs: "bs = hs @ body"
    by (auto simp: encodeValue.simps [of ep d] split: if_splits elim!: withHeader_Inr)
  from hs obtain h lb where h: "hs = h # lb" using headers_nonempty(5) by blast
  from lim have l: "UINT32_MAX \<le> bufMaxMapLength dp" by (simp add: wideLimits_def)
  note hd = head_map [OF hs [unfolded h] l, of "int (unat h)" "pre @ [h]" "body @ rest" stk]
  show ?case
  proof (cases "kvs = []")
    case True
    with body have "body = []" by simp
    with True hd show ?thesis
      unfolding bs h
      by (intro scalar_loop [where h = h and lb = lb]) simp_all
  next
    case False
    let ?fr = "StackMapState STATE_MAP_KEY (length kvs) None 0 []"
    have "bufDoDecodeSync dp (atHead HEAD_BYTE_REQUIRED pre (h # (lb @ body) @ rest) stk) =
       bufDoDecodeSync dp (atHead HEAD_BYTE_REQUIRED (pre @ h # lb) (body @ rest) (?fr # stk))"
      using hd False loop_push [of dp h pre lb "body @ rest" stk "?fr # stk"] by simp
    also have "\<dots> = finish dp (JObject ([] @ kvs)) ((pre @ h # lb) @ body) rest stk"
    proof -
      have IHk: "bufDoDecodeSync dp (atHead HEAD_BYTE_REQUIRED pre' (bs' @ rest') stk') =
          finish dp (fst kv) (pre' @ bs') rest' stk'"
        if "kv \<in> set kvs" "encodeValue ep (d + 1) (fst kv) = Inr bs'" for kv bs' pre' rest' stk'
        using that JObject.prems(1)
        by (intro JObject.IH(1) [of kv]) (auto simp: list_all_iff isString_key intro: fsts.intros)
      have IHv: "bufDoDecodeSync dp (atHead HEAD_BYTE_REQUIRED pre' (bs' @ rest') stk') =
          finish dp (snd kv) (pre' @ bs') rest' stk'"
        if "kv \<in> set kvs" "encodeValue ep (d + 1) (snd kv) = Inr bs'" for kv bs' pre' rest' stk'
        using that JObject.prems(1)
        by (intro JObject.IH(2) [of kv]) (auto simp: list_all_iff intro: snds.intros)
      have keys: "isValidMapKeyType (fst kv) \<and> fst kv \<noteq> JString ''__proto__''"
        if "kv \<in> set kvs" for kv
        using that JObject.prems(1) by (auto simp: list_all_iff isString_key)
      have dist: "distinct (map fst ([] @ kvs))" using JObject.prems(1) by simp
      from map_pairs [where acc = "[]" and enc = "encodeValue ep (d + 1)",
          OF IHk IHv keys body False _ dist]
      show ?thesis by simp
    qed
    finally show ?thesis by (simp add: bs h)
  qed
next
  case (JOther x)
  then show ?case by simp
qed

lemma encodeValue_eqs:
  "encodeValue p d JNull = (if d > maxDepth p then Inl DepthExceeded else Inr [0xc0])"
  "encodeValue p d (JBoolean b) =
     (if d > maxDepth p then Inl DepthExceeded else Inr [if b then 0xc3 else 0xc2])"
  "encodeValue p d (JNumber (Integer i)) =
     (if d > maxDepth p then Inl DepthExceeded else encodeInteger i)"
  "encodeValue p d (JNumber (Float64 w)) =
     (if d > maxDepth p then Inl DepthExceeded else Inr (0xcb # beBytes 8 (unat w)))"
  "encodeValue p d (JString str) =
     (if d > maxDepth p then Inl DepthExceeded
      else withHeader (strHeader (length (utf8Encode p str))) (Inr (utf8Encode p str)))"
  "encodeValue p d (JUint8Array bs) =
     (if d > maxDepth p then Inl DepthExceeded else withHeader (binHeader (length bs)) (Inr bs))"
  "encodeValue p d (JArray xs) =
     (if d > maxDepth p then Inl DepthExceeded
      else withHeader (arrayHeader (length xs)) (collect (map (encodeValue p (d + 1)) xs)))"
  "encodeValue p d (JObject kvs) =
     (if d > maxDepth p then Inl DepthExceeded
      else withHeader (mapHeader (length kvs))
             (collect (map (\<lambda>kv. withHeader (encodeValue p (d + 1) (fst kv))
                                            (encodeValue p (d + 1) (snd kv))) kvs)))"
  by (simp_all add: encodeValue.simps [of p d])

lemmas encode_defs = encode_def encodeValue_eqs encodeInteger_def strHeader_def binHeader_def
  arrayHeader_def mapHeader_def withHeader_def DEFAULT_MAX_DEPTH_def beBytes.simps
  defaultEncoderParams_def numeral_2_eq_2

lemma default_utf8:
  "bufUtf8Decode defaultDecoderParams (utf8Encode defaultEncoderParams str) = str"
proof -
  have "char_of (unat (of_nat (of_char c :: nat) :: byte)) = c" for c :: char
    by (simp add: unat_of_nat)
  then show ?thesis
    by (simp add: defaultDecoderParams_def defaultEncoderParams_def o_def)
qed

text \<open>
  Claim C1, as amended. For every supported value (nil, booleans, integers, 64-bit
  floats, strings, binaries, arrays and maps of such values, the keys of a map being
  strings) in which no map has the key \<open>__proto__\<close>, decoding the bytes that encoding
  it produces yields that value, given that the UTF-8 decoder reads back what the UTF-8
  encoder writes and that the decoder's limits are the default ones or wider.
\<close>

theorem decode_encode:
  assumes "supported v" and "encode ep v = Inr bs"
    and "\<forall>str. bufUtf8Decode dp (utf8Encode ep str) = str" and "wideLimits dp"
  shows "bufDecode dp bs = Some (Inr v)"
proof -
  let ?ep = "ep\<lparr>maxDepth := (if maxDepth ep = 0 then DEFAULT_MAX_DEPTH else maxDepth ep)\<rparr>"
  have utf: "bufUtf8Decode dp (utf8Encode ?ep str) = str" for str
    using assms(3) by simp
  have e: "encodeValue ?ep 1 v = Inr bs" using assms(2) by (simp add: encode_def)
  from decode_encodeValue [of dp ?ep v 1 bs "[]" "[]" "[]", OF utf assms(4,1) e]
  have "bufDoDecodeSync dp (atHead HEAD_BYTE_REQUIRED [] bs []) =
     Some (Inr v, atHead HEAD_BYTE_REQUIRED bs [] [])"
    by (simp add: finish_def)
  then show ?thesis by (simp add: bufDecode_def atHead_def)
qed

text \<open>
  A witness: the array of nil, true, -33, the string \<open>a\<close>, the binary \<open>01 02\<close> and the
  map \<open>{"a": 1}\<close>.
\<close>

theorem decode_encode_witness:
  "bufDecode defaultDecoderParams
     [0x96, 0xc0, 0xc3, 0xd0, 0xdf, 0xa1, 0x61, 0xc4, 0x02, 0x01, 0x02, 0x81, 0xa1, 0x61, 0x01] =
   Some (Inr (JArray [JNull, JBoolean True, JNumber (Integer (- 33)), JString ''a'',
     JUint8Array [1, 2], JObject [(JString ''a'', JNumber (Integer 1))]]))"
proof -
  let ?v = "JArray [JNull, JBoolean True, JNumber (Integer (- 33)), JString ''a'',
     JUint8Array [1, 2 :: byte], JObject [(JString ''a'', JNumber (Integer 1))]]"
  have 1: "supported ?v" by (simp add: isValidMapKeyType_def)
  have 2: "encode defaultEncoderParams ?v =
     Inr [0x96, 0xc0, 0xc3, 0xd0, 0xdf, 0xa1, 0x61, 0xc4, 0x02, 0x01, 0x02, 0x81, 0xa1, 0x61, 0x01]"
    by (simp add: encode_defs)
  have 3: "wideLimits defaultDecoderParams"
    by (simp add: wideLimits_def defaultDecoderParams_def)
  from decode_encode [OF 1 2 _ 3] default_utf8 show ?thesis by simp
qed

text \<open>
  Claim C1 as stated fails for a map with the key \<open>__proto__\<close>: the map
  \<open>{"__proto__": nil}\<close> is encoded to twelve bytes, and decoding them fails with the
  DecodeError "The key __proto__ is not allowed".
\<close>

theorem proto_key_does_not_round_trip:
  "encode defaultEncoderParams (JObject [(JString ''__proto__'', JNull)]) =
     Inr [0x81, 0xa9, 0x5f, 0x5f, 0x70, 0x72, 0x6f, 0x74, 0x6f, 0x5f, 0x5f, 0xc0]
   \<and> bufDecode defaultDecoderParams
       [0x81, 0xa9, 0x5f, 0x5f, 0x70, 0x72, 0x6f, 0x74, 0x6f, 0x5f, 0x5f, 0xc0] =
     Some (Inl (DecodeError ''The key __proto__ is not allowed''))"
proof -
  have "encode defaultEncoderParams (JObject [(JString ''__proto__'', JNull)]) =
     Inr [0x81, 0xa9, 0x5f, 0x5f, 0x70, 0x72, 0x6f, 0x74, 0x6f, 0x5f, 0x5f, 0xc0]"
    by (simp add: encode_defs)
  moreover have "bufDecode defaultDecoderParams
       [0x81, 0xa9, 0x5f, 0x5f, 0x70, 0x72, 0x6f, 0x74, 0x6f, 0x5f, 0x5f, 0xc0] =
     Some (Inl (DecodeError ''The key __proto__ is not allowed''))"
    by (simp add: buf_eval_defs eval_defs)
  ultimately show ?thesis by simp
qed

end
